theory Spec2Isabelle
  imports Complex_Main
begin

section \<open>Tensors\<close>

text \<open>
  A tensor is a shape together with its elements in row-major (contiguous) order, which
  is how the array library stores the result of every operation used by the notebook.
  Views are not modelled: \<open>permute\<close> yields the elements in the logical order of the
  permuted tensor, which is what every later \<open>reshape\<close> of the notebook reads.
\<close>

datatype 'a tensor = Tensor (shape: "nat list") (data: "'a list")

definition numel :: "'a tensor \<Rightarrow> nat" where
  "numel t = prod_list (shape t)"

definition wf_tensor :: "'a tensor \<Rightarrow> bool" where
  "wf_tensor t = (length (data t) = prod_list (shape t))"

text \<open>The exceptions of the Python code, as values.\<close>

datatype error = ValueError | AssertionError | ZeroDivisionError | RuntimeError | TypeError

text \<open>
  \<open>reshape\<close> keeps the elements and changes the shape; the library raises a
  RuntimeError when the requested shape has another number of elements.
\<close>

definition reshape :: "'a tensor \<Rightarrow> nat list \<Rightarrow> error + 'a tensor" where
  "reshape t s = (if prod_list s = numel t then Inr (Tensor s (data t)) else Inl RuntimeError)"

text \<open>Row-major offsets: \<open>unravel\<close> splits an offset into a multi-index, \<open>ravel\<close> joins it.\<close>

fun unravel :: "nat list \<Rightarrow> nat \<Rightarrow> nat list" where
  "unravel [] k = []"
| "unravel (d # ds) k = (k div prod_list ds) # unravel ds (k mod prod_list ds)"

fun ravel :: "nat list \<Rightarrow> nat list \<Rightarrow> nat" where
  "ravel (d # ds) (i # is) = i * prod_list ds + ravel ds is"
| "ravel _ _ = 0"

definition valid_index :: "nat list \<Rightarrow> nat list \<Rightarrow> bool" where
  "valid_index s idx = list_all2 (\<lambda>i d. i < d) idx s"

text \<open>
  \<open>permute t dims\<close>: dimension \<open>k\<close> of the result is dimension \<open>dims ! k\<close> of \<open>t\<close>, so the
  element at index \<open>j\<close> of the result is the element of \<open>t\<close> at the index \<open>i\<close> with
  \<open>i ! (dims ! k) = j ! k\<close>. The library raises a RuntimeError unless \<open>dims\<close> is a
  permutation of the dimensions of \<open>t\<close>.
\<close>

definition gather_idx :: "nat list \<Rightarrow> 'a list \<Rightarrow> 'a list" where
  "gather_idx dims xs = map (\<lambda>k. xs ! k) dims"

fun index_of :: "nat list \<Rightarrow> nat \<Rightarrow> nat" where
  "index_of [] d = 0"
| "index_of (x # xs) d = (if x = d then 0 else Suc (index_of xs d))"

definition inv_perm :: "nat list \<Rightarrow> nat list" where
  "inv_perm dims = map (index_of dims) [0..<length dims]"

definition permute :: "'a tensor \<Rightarrow> nat list \<Rightarrow> error + 'a tensor" where
  "permute t dims =
     (if sort dims = [0..<length (shape t)] then
        (let s' = gather_idx dims (shape t) in
         Inr (Tensor s'
                (map (\<lambda>j. data t ! ravel (shape t) (gather_idx (inv_perm dims) (unravel s' j)))
                     [0..<prod_list s'])))
      else Inl RuntimeError)"

text \<open>
  \<open>int(N**0.5)\<close>: the integer part of the square root. The power is a floating-point one
  in the source; the model computes the exact integer square root (the largest \<open>k\<close> with
  \<open>k * k \<le> N\<close>), which is what the source yields on every patch count a tensor can have.
\<close>

fun sqrt_search :: "nat \<Rightarrow> nat \<Rightarrow> nat" where
  "sqrt_search n 0 = 0"
| "sqrt_search n (Suc k) = (if Suc k * Suc k \<le> n then Suc k else sqrt_search n k)"

definition isqrt :: "nat \<Rightarrow> nat" where
  "isqrt n = sqrt_search n n"

section \<open>Patch codec\<close>

text \<open>
  \<^verbatim>\<open>def patchify(imgs, patch_size=4)\<close>. Unpacking \<open>imgs.shape\<close> into four names raises a
  ValueError on a tensor of another rank; \<open>H % patch_size\<close> raises a ZeroDivisionError for
  a zero patch size; the \<open>assert\<close> raises an AssertionError; a negative patch size that
  passes the assertion reaches \<open>reshape\<close> with negative sizes, which the library rejects
  with a RuntimeError.
\<close>

definition patchify :: "'a tensor \<Rightarrow> int \<Rightarrow> error + 'a tensor" where
  "patchify imgs patch_size =
     (case shape imgs of
        [B, C, H, W] \<Rightarrow>
          if patch_size = 0 then Inl ZeroDivisionError
          else if \<not> (int H mod patch_size = 0 \<and> int W mod patch_size = 0)
            then Inl AssertionError
          else if patch_size < 0 then Inl RuntimeError
          else
            (let p = nat patch_size; h = H div p; w = W div p in
             case reshape imgs [B, C, h, p, w, p] of
               Inl e \<Rightarrow> Inl e
             | Inr patches \<Rightarrow>
                 (case permute patches [0, 2, 4, 3, 5, 1] of
                    Inl e \<Rightarrow> Inl e
                  | Inr patches \<Rightarrow> reshape patches [B, h * w, p * p * C]))
      | _ \<Rightarrow> Inl ValueError)"

text \<open>
  \<^verbatim>\<open>def unpatchify(patches, patch_size=4)\<close>, the helper nested in
  \<open>reconstruct_and_visualize\<close>. The grid is taken to be square: \<open>h = w = int(N**0.5)\<close>.
\<close>

definition unpatchify :: "'a tensor \<Rightarrow> int \<Rightarrow> error + 'a tensor" where
  "unpatchify patches patch_size =
     (case shape patches of
        [B, N, D] \<Rightarrow>
          (let h = isqrt N; w = h in
           if patch_size = 0 then Inl ZeroDivisionError
           else
             (let C = D div nat (patch_size * patch_size) in
              if patch_size < 0 then Inl RuntimeError
              else
                (let p = nat patch_size in
                 case reshape patches [B, h, w, p, p, C] of
                   Inl e \<Rightarrow> Inl e
                 | Inr patches \<Rightarrow>
                     (case permute patches [0, 5, 1, 3, 2, 4] of
                        Inl e \<Rightarrow> Inl e
                      | Inr patches \<Rightarrow> reshape patches [B, C, h * p, w * p]))))
      | _ \<Rightarrow> Inl ValueError)"

section \<open>Floating-point values\<close>

text \<open>
  The elements of the patch sequences and of the mask are floating-point numbers. The
  model keeps the special values (the two infinities and NaN) with their arithmetic,
  since the loss divides by a sum that can be zero; on finite values the arithmetic is
  exact (no rounding, no overflow) and zero has no sign.
\<close>

datatype fl = Fin real | PInf | NInf | NaN

fun is_fin :: "fl \<Rightarrow> bool" where
  "is_fin (Fin x) = True"
| "is_fin _ = False"

fun fneg :: "fl \<Rightarrow> fl" where
  "fneg (Fin x) = Fin (- x)"
| "fneg PInf = NInf"
| "fneg NInf = PInf"
| "fneg NaN = NaN"

fun fadd :: "fl \<Rightarrow> fl \<Rightarrow> fl" where
  "fadd (Fin x) (Fin y) = Fin (x + y)"
| "fadd NaN b = NaN"
| "fadd a NaN = NaN"
| "fadd PInf NInf = NaN"
| "fadd NInf PInf = NaN"
| "fadd PInf b = PInf"
| "fadd a PInf = PInf"
| "fadd NInf b = NInf"
| "fadd a NInf = NInf"

definition fsub :: "fl \<Rightarrow> fl \<Rightarrow> fl" where
  "fsub a b = fadd a (fneg b)"

fun fmul :: "fl \<Rightarrow> fl \<Rightarrow> fl" where
  "fmul (Fin x) (Fin y) = Fin (x * y)"
| "fmul NaN b = NaN"
| "fmul a NaN = NaN"
| "fmul PInf (Fin y) = (if y = 0 then NaN else if 0 < y then PInf else NInf)"
| "fmul NInf (Fin y) = (if y = 0 then NaN else if 0 < y then NInf else PInf)"
| "fmul (Fin x) PInf = (if x = 0 then NaN else if 0 < x then PInf else NInf)"
| "fmul (Fin x) NInf = (if x = 0 then NaN else if 0 < x then NInf else PInf)"
| "fmul PInf PInf = PInf"
| "fmul NInf NInf = PInf"
| "fmul PInf NInf = NInf"
| "fmul NInf PInf = NInf"

fun fdiv :: "fl \<Rightarrow> fl \<Rightarrow> fl" where
  "fdiv (Fin x) (Fin y) =
     (if y \<noteq> 0 then Fin (x / y)
      else if x = 0 then NaN else if 0 < x then PInf else NInf)"
| "fdiv NaN b = NaN"
| "fdiv a NaN = NaN"
| "fdiv (Fin x) PInf = Fin 0"
| "fdiv (Fin x) NInf = Fin 0"
| "fdiv PInf (Fin y) = (if 0 \<le> y then PInf else NInf)"
| "fdiv NInf (Fin y) = (if 0 \<le> y then NInf else PInf)"
| "fdiv PInf PInf = NaN"
| "fdiv PInf NInf = NaN"
| "fdiv NInf PInf = NaN"
| "fdiv NInf NInf = NaN"

text \<open>\<open>x ** 2\<close> and the sum of a sequence of values.\<close>

definition fsquare :: "fl \<Rightarrow> fl" where
  "fsquare x = fmul x x"

definition fsum :: "fl list \<Rightarrow> fl" where
  "fsum xs = foldl fadd (Fin 0) xs"

section \<open>Elementwise operations and reductions\<close>

text \<open>
  Binary operations broadcast their operands: the shapes are aligned at the last
  dimension, a dimension of size 1 is repeated, and shapes that do not fit raise a
  RuntimeError.
\<close>

fun bshape_rev :: "nat list \<Rightarrow> nat list \<Rightarrow> nat list option" where
  "bshape_rev [] ys = Some ys"
| "bshape_rev xs [] = Some xs"
| "bshape_rev (x # xs) (y # ys) =
     (if x = y \<or> y = 1 then map_option ((#) x) (bshape_rev xs ys)
      else if x = 1 then map_option ((#) y) (bshape_rev xs ys)
      else None)"

definition broadcast_shapes :: "nat list \<Rightarrow> nat list \<Rightarrow> nat list option" where
  "broadcast_shapes a b = map_option rev (bshape_rev (rev a) (rev b))"

definition bcast_index :: "nat list \<Rightarrow> nat list \<Rightarrow> nat list" where
  "bcast_index s idx =
     map2 (\<lambda>d i. if d = 1 then 0 else i) s (drop (length idx - length s) idx)"

definition expand :: "'a tensor \<Rightarrow> nat list \<Rightarrow> 'a tensor" where
  "expand t s =
     Tensor s (map (\<lambda>j. data t ! ravel (shape t) (bcast_index (shape t) (unravel s j)))
                   [0..<prod_list s])"

definition binop :: "('a \<Rightarrow> 'a \<Rightarrow> 'a) \<Rightarrow> 'a tensor \<Rightarrow> 'a tensor \<Rightarrow> error + 'a tensor" where
  "binop f a b =
     (case broadcast_shapes (shape a) (shape b) of
        None \<Rightarrow> Inl RuntimeError
      | Some s \<Rightarrow> Inr (Tensor s (map2 f (data (expand a s)) (data (expand b s)))))"

definition tmap :: "('a \<Rightarrow> 'b) \<Rightarrow> 'a tensor \<Rightarrow> 'b tensor" where
  "tmap f t = Tensor (shape t) (map f (data t))"

definition tsum :: "fl tensor \<Rightarrow> fl" where
  "tsum t = fsum (data t)"

text \<open>
  \<open>.mean(dim=-1)\<close>: the mean over the last dimension, which disappears from the shape.
  The mean of an empty row is \<open>0 / 0\<close>; a tensor without dimensions is its own mean.
\<close>

definition mean_last :: "fl tensor \<Rightarrow> fl tensor" where
  "mean_last t =
     (if shape t = [] then t
      else
        (let D = last (shape t); s = butlast (shape t) in
         Tensor s (map (\<lambda>k. fdiv (fsum (take D (drop (k * D) (data t)))) (Fin (real D)))
                       [0..<prod_list s])))"

section \<open>Masked loss\<close>

text \<open>
  \<^verbatim>\<open>def compute_loss(original, reconstructed, mask)\<close>:
  \<^verbatim>\<open>loss = ((original - reconstructed) ** 2).mean(dim=-1)\<close>, then
  \<^verbatim>\<open>(loss * mask).sum() / mask.sum()\<close>. The quotient is a floating-point division: a
  zero denominator raises nothing.
\<close>

definition compute_loss :: "fl tensor \<Rightarrow> fl tensor \<Rightarrow> fl tensor \<Rightarrow> error + fl" where
  "compute_loss original reconstructed msk =
     (case binop fsub original reconstructed of
        Inl e \<Rightarrow> Inl e
      | Inr diff \<Rightarrow>
          (let loss = mean_last (tmap fsquare diff) in
           case binop fmul loss msk of
             Inl e \<Rightarrow> Inl e
           | Inr weighted \<Rightarrow> Inr (fdiv (tsum weighted) (tsum msk))))"

text \<open>Reading a \<open>[B, N, D]\<close> sequence and a \<open>[B, N]\<close> mask by position.\<close>

definition patch_at :: "'a tensor \<Rightarrow> nat \<Rightarrow> nat \<Rightarrow> 'a list" where
  "patch_at t b n =
     (let N = shape t ! 1; D = shape t ! 2 in
      map (\<lambda>d. data t ! ((b * N + n) * D + d)) [0..<D])"

definition mask_at :: "'a tensor \<Rightarrow> nat \<Rightarrow> nat \<Rightarrow> 'a" where
  "mask_at m b n = data m ! (b * (shape m ! 1) + n)"


text \<open>
  The masked loss in the words of its contract: the squared error of a patch,
  mean-reduced over the patch dimension; times the mask; summed over all positions;
  divided by the sum of the mask. (The mask is named \<open>msk\<close> throughout, \<open>mask\<close> being a
  constant of the logic.)
\<close>

definition patch_error :: "fl list \<Rightarrow> fl list \<Rightarrow> fl" where
  "patch_error x y =
     fdiv (fsum (map (\<lambda>d. fsquare (fsub (x ! d) (y ! d))) [0..<length x]))
          (Fin (real (length x)))"

definition error_surface :: "fl tensor \<Rightarrow> fl tensor \<Rightarrow> nat \<Rightarrow> nat \<Rightarrow> fl" where
  "error_surface original reconstructed b n =
     patch_error (patch_at original b n) (patch_at reconstructed b n)"

definition masked_loss_spec :: "fl tensor \<Rightarrow> fl tensor \<Rightarrow> fl tensor \<Rightarrow> fl" where
  "masked_loss_spec original reconstructed msk =
     (let B = shape msk ! 0; N = shape msk ! 1 in
      fdiv (fsum (map (\<lambda>b. fsum (map (\<lambda>n. fmul (error_surface original reconstructed b n)
                                             (mask_at msk b n)) [0..<N])) [0..<B]))
           (fsum (map (\<lambda>b. fsum (map (\<lambda>n. mask_at msk b n) [0..<N])) [0..<B])))"

section \<open>Masking policy\<close>

text \<open>
  \<open>int(x)\<close> truncates towards zero. The ratio and the product \<open>N * (1 - mask_ratio)\<close> are
  exact reals in the model.
\<close>

definition py_int :: "real \<Rightarrow> int" where
  "py_int x = (if 0 \<le> x then \<lfloor>x\<rfloor> else \<lceil>x\<rceil>)"

text \<open>The slice \<open>[:k]\<close>: a negative \<open>k\<close> counts from the end.\<close>

definition slice_len :: "int \<Rightarrow> nat \<Rightarrow> nat" where
  "slice_len k n = (if 0 \<le> k then min (nat k) n else n - nat (- k))"

definition py_slice_to :: "int \<Rightarrow> 'a list \<Rightarrow> 'a list" where
  "py_slice_to k xs = take (slice_len k (length xs)) xs"

definition set_slice_to :: "int \<Rightarrow> 'a \<Rightarrow> 'a list \<Rightarrow> 'a list" where
  "set_slice_to k v xs =
     replicate (slice_len k (length xs)) v @ drop (slice_len k (length xs)) xs"

text \<open>
  \<open>argsort\<close>: the indices that sort a row in ascending order (equal keys keep their
  order here; the keys of the second \<open>argsort\<close> of the source are pairwise different).
\<close>

definition argsort :: "('a::linorder) list \<Rightarrow> nat list" where
  "argsort xs = map snd (sort_key fst (zip xs [0..<length xs]))"

text \<open>
  \<open>torch.rand(B, N)\<close> takes \<open>B * N\<close> successive values from the process-wide generator.
  The generator is a state \<open>g\<close> with a function \<open>draw\<close> giving the next value and state.
\<close>

fun draws :: "('g \<Rightarrow> real \<times> 'g) \<Rightarrow> nat \<Rightarrow> 'g \<Rightarrow> real list \<times> 'g" where
  "draws draw 0 g = ([], g)"
| "draws draw (Suc n) g =
     (let (x, g1) = draw g; (xs, g2) = draws draw n g1 in (x # xs, g2))"

definition rand :: "('g \<Rightarrow> real \<times> 'g) \<Rightarrow> 'g \<Rightarrow> nat list \<Rightarrow> real tensor \<times> 'g" where
  "rand draw g s = (let (xs, g') = draws draw (prod_list s) g in (Tensor s xs, g'))"

definition rows2 :: "'a tensor \<Rightarrow> 'a list list" where
  "rows2 t =
     (let B = shape t ! 0; N = shape t ! 1 in
      map (\<lambda>b. take N (drop (b * N) (data t))) [0..<B])"

text \<open>\<open>torch.gather(mask, dim=1, index)\<close>: \<open>out[b][n] = mask[b][index[b][n]]\<close>.\<close>

definition gather1 :: "'a list list \<Rightarrow> nat list list \<Rightarrow> 'a list list" where
  "gather1 rows index = map2 (\<lambda>row ids. map (\<lambda>j. row ! j) ids) rows index"

definition zeros_like :: "fl tensor \<Rightarrow> fl tensor" where
  "zeros_like t = Tensor (shape t) (replicate (length (data t)) (Fin 0))"

text \<open>
  \<open>masked[b, ids] = patches[b, ids]\<close> with a list of patch indices: patch \<open>ids[j]\<close> of
  image \<open>b\<close> is overwritten with the \<open>j\<close>-th value.
\<close>

definition set_patch :: "'a tensor \<Rightarrow> nat \<Rightarrow> nat \<Rightarrow> 'a list \<Rightarrow> 'a tensor" where
  "set_patch t b i v =
     (let N = shape t ! 1; D = shape t ! 2; off = (b * N + i) * D in
      Tensor (shape t)
        (map (\<lambda>j. if off \<le> j \<and> j < off + D then v ! (j - off) else data t ! j)
             [0..<length (data t)]))"

definition index_get :: "'a tensor \<Rightarrow> nat \<Rightarrow> nat list \<Rightarrow> 'a list list" where
  "index_get t b ids = map (\<lambda>i. patch_at t b i) ids"

definition index_put :: "'a tensor \<Rightarrow> nat \<Rightarrow> nat list \<Rightarrow> 'a list list \<Rightarrow> 'a tensor" where
  "index_put t b ids vals = fold (\<lambda>(i, v) m. set_patch m b i v) (zip ids vals) t"

text \<open>
  \<^verbatim>\<open>def random_masking(patches, mask_ratio=0.75)\<close>. The function reads and advances the
  process-wide generator, so the model takes the generator state and returns the new
  one with the pair \<open>(masked, mask)\<close>.
\<close>

definition random_masking ::
  "('g \<Rightarrow> real \<times> 'g) \<Rightarrow> fl tensor \<Rightarrow> real \<Rightarrow> 'g \<Rightarrow> error + ((fl tensor \<times> fl tensor) \<times> 'g)" where
  "random_masking draw patches mask_ratio g =
     (case shape patches of
        [B, N, D] \<Rightarrow>
          (let len_keep = py_int (real N * (1 - mask_ratio));
               (noise, g') = rand draw g [B, N];
               ids_shuffle = map argsort (rows2 noise);
               ids_restore = map argsort ids_shuffle;
               ids_keep = map (py_slice_to len_keep) ids_shuffle;
               msk = replicate B (replicate N (Fin 1));
               msk = map (set_slice_to len_keep (Fin 0)) msk;
               msk = gather1 msk ids_restore;
               masked = zeros_like patches;
               masked = fold (\<lambda>b m. index_put m b (ids_keep ! b)
                                       (index_get patches b (ids_keep ! b)))
                             [0..<B] masked
           in Inr ((masked, Tensor [B, N] (concat msk)), g'))
      | _ \<Rightarrow> Inl ValueError)"


section \<open>Row-major indexing and permutation of dimensions\<close>

lemma unravel_length: "length (unravel s k) = length s"
  by (induction s arbitrary: k) simp_all

lemma unravel_valid: "k < prod_list s \<Longrightarrow> valid_index s (unravel s k)"
proof (induction s arbitrary: k)
  case Nil
  then show ?case by (simp add: valid_index_def)
next
  case (Cons d ds)
  have pos: "0 < prod_list ds" using Cons.prems by (cases "prod_list ds = 0") simp_all
  have "k div prod_list ds < d"
    using Cons.prems pos by (simp add: less_mult_imp_div_less mult.commute)
  moreover have "valid_index ds (unravel ds (k mod prod_list ds))"
    using Cons.IH pos by simp
  ultimately show ?case by (simp add: valid_index_def)
qed

lemma ravel_unravel: "k < prod_list s \<Longrightarrow> ravel s (unravel s k) = k"
proof (induction s arbitrary: k)
  case Nil
  then show ?case by simp
next
  case (Cons d ds)
  have pos: "0 < prod_list ds" using Cons.prems by (cases "prod_list ds = 0") simp_all
  then have "ravel ds (unravel ds (k mod prod_list ds)) = k mod prod_list ds"
    using Cons.IH by simp
  then show ?case by simp
qed

lemma ravel_lt: "valid_index s idx \<Longrightarrow> ravel s idx < prod_list s"
proof (induction s idx rule: ravel.induct)
  case (1 d ds i "is")
  then have i: "i < d" and r: "ravel ds is < prod_list ds"
    by (simp_all add: valid_index_def)
  have "i * prod_list ds + ravel ds is < i * prod_list ds + prod_list ds"
    using r by simp
  also have "\<dots> = Suc i * prod_list ds" by simp
  also have "\<dots> \<le> d * prod_list ds"
    using i by (intro mult_le_mono1) simp
  finally show ?case by simp
qed (simp_all add: valid_index_def)

lemma unravel_ravel: "valid_index s idx \<Longrightarrow> unravel s (ravel s idx) = idx"
proof (induction s idx rule: ravel.induct)
  case (1 d ds i "is")
  then have v: "valid_index ds is" by (simp add: valid_index_def)
  then have r: "ravel ds is < prod_list ds" by (rule ravel_lt)
  from 1 v have "unravel ds (ravel ds is) = is" by simp
  then show ?case using r by simp
qed (simp_all add: valid_index_def)

lemma valid_index_length: "valid_index s idx \<Longrightarrow> length idx = length s"
  by (simp add: valid_index_def list_all2_lengthD)

lemma gather_valid:
  "valid_index s idx \<Longrightarrow> \<forall>k\<in>set dims. k < length s \<Longrightarrow>
   valid_index (gather_idx dims s) (gather_idx dims idx)"
  by (simp add: valid_index_def gather_idx_def list_all2_conv_all_nth)

lemma index_of_nth: "d \<in> set xs \<Longrightarrow> index_of xs d < length xs \<and> xs ! index_of xs d = d"
  by (induction xs) auto

lemma gather_inv:
  assumes "sort dims = [0..<length xs]"
  shows "gather_idx (inv_perm dims) (gather_idx dims xs) = xs"
proof -
  have len: "length dims = length xs"
    using assms by (metis length_sort length_upt minus_nat.diff_0)
  have st: "set dims = {0..<length xs}"
    using assms by (metis set_sort set_upt)
  have "map (\<lambda>d. map (\<lambda>k. xs ! k) dims ! index_of dims d) [0..<length xs] = map (\<lambda>d. xs ! d) [0..<length xs]"
  proof (rule map_cong[OF refl])
    fix d assume "d \<in> set [0..<length xs]"
    then have "d \<in> set dims" using st by simp
    then show "map (\<lambda>k. xs ! k) dims ! index_of dims d = xs ! d"
      using index_of_nth[of d dims] by simp
  qed
  then show ?thesis
    by (simp add: gather_idx_def inv_perm_def len map_nth comp_def)
qed

lemma permute_ok:
  assumes "sort dims = [0..<length (shape t)]"
  shows "permute t dims =
     Inr (Tensor (gather_idx dims (shape t))
        (map (\<lambda>j. data t ! ravel (shape t) (gather_idx (inv_perm dims) (unravel (gather_idx dims (shape t)) j)))
             [0..<prod_list (gather_idx dims (shape t))]))"
  using assms by (simp add: permute_def Let_def)

lemma permute_inverse:
  assumes wf: "wf_tensor t"
    and p: "sort dims = [0..<length (shape t)]"
    and q: "sort dims' = [0..<length (shape t)]"
    and qp: "dims' = inv_perm dims" and pq: "inv_perm dims' = dims"
    and t': "permute t dims = Inr t'"
  shows "permute t' dims' = Inr t"
proof -
  let ?s = "shape t" and ?s' = "gather_idx dims (shape t)"
  have t'_eq: "t' = Tensor ?s'
        (map (\<lambda>j. data t ! ravel ?s (gather_idx (inv_perm dims) (unravel ?s' j)))
             [0..<prod_list ?s'])"
    using permute_ok[OF p] t' by simp
  have lens': "length ?s' = length ?s"
    using p by (metis gather_idx_def length_map length_sort length_upt minus_nat.diff_0)
  have setp: "set dims = {0..<length ?s}" using p by (metis set_sort set_upt)
  have setq: "set dims' = {0..<length ?s}" using q by (metis set_sort set_upt)
  have s'': "gather_idx dims' ?s' = ?s"
    using gather_inv[OF p] qp by simp
  have q': "sort dims' = [0..<length (shape t')]"
    using q lens' t'_eq by simp
  have el: "data t' ! ravel ?s' (gather_idx dims (unravel ?s j)) = data t ! j"
    if j: "j < prod_list ?s" for j
  proof -
    let ?idx = "unravel ?s j"
    have v: "valid_index ?s ?idx" using j by (rule unravel_valid)
    have v': "valid_index ?s' (gather_idx dims ?idx)"
      using v setp by (intro gather_valid) auto
    have lt: "ravel ?s' (gather_idx dims ?idx) < prod_list ?s'" using v' by (rule ravel_lt)
    have li: "sort dims = [0..<length ?idx]" using p by (simp add: unravel_length)
    have "data t' ! ravel ?s' (gather_idx dims ?idx)
        = data t ! ravel ?s (gather_idx (inv_perm dims) (unravel ?s' (ravel ?s' (gather_idx dims ?idx))))"
      using lt by (simp add: t'_eq)
    also have "\<dots> = data t ! ravel ?s (gather_idx (inv_perm dims) (gather_idx dims ?idx))"
      using v' by (simp add: unravel_ravel)
    also have "\<dots> = data t ! ravel ?s ?idx" using gather_inv[OF li] by simp
    also have "\<dots> = data t ! j" using j by (simp add: ravel_unravel)
    finally show ?thesis .
  qed
  have "map (\<lambda>j. data t' ! ravel ?s' (gather_idx dims (unravel ?s j))) [0..<prod_list ?s]
      = map (\<lambda>j. data t ! j) [0..<prod_list ?s]"
    by (rule map_cong[OF refl]) (simp add: el)
  also have "\<dots> = data t" using wf by (metis wf_tensor_def map_nth)
  finally have d: "map (\<lambda>j. data t' ! ravel ?s' (gather_idx dims (unravel ?s j))) [0..<prod_list ?s] = data t" .
  have "permute t' dims' = Inr (Tensor ?s (data t))"
    unfolding permute_ok[OF q'] using s'' d pq by (simp add: t'_eq)
  then show ?thesis by simp
qed

section \<open>Patch codec: shapes, failures and the round trip\<close>

lemma sort_patchify_dims: "sort [0, 2, 4, 3, 5, 1::nat] = [0..<6]"
  by code_simp

lemma sort_unpatchify_dims: "sort [0, 5, 1, 3, 2, 4::nat] = [0..<6]"
  by code_simp

lemma sort_patchify_dims_len: "length s = 6 \<Longrightarrow> sort [0, 2, 4, 3, 5, 1::nat] = [0..<length s]"
  by (simp only: sort_patchify_dims)

lemma sort_unpatchify_dims_len: "length s = 6 \<Longrightarrow> sort [0, 5, 1, 3, 2, 4::nat] = [0..<length s]"
  by (simp only: sort_unpatchify_dims)

lemma inv_patchify_dims: "inv_perm [0, 2, 4, 3, 5, 1] = [0, 5, 1, 3, 2, 4]"
  by code_simp

lemma inv_unpatchify_dims: "inv_perm [0, 5, 1, 3, 2, 4] = [0, 2, 4, 3, 5, 1]"
  by code_simp

lemma sqrt_search_le: "sqrt_search n k \<le> k \<and> sqrt_search n k * sqrt_search n k \<le> n"
  by (induction k) (auto simp: le_Suc_eq)

lemma sqrt_search_greatest: "m \<le> k \<Longrightarrow> m * m \<le> n \<Longrightarrow> m \<le> sqrt_search n k"
proof (induction k)
  case 0
  then show ?case by simp
next
  case (Suc k)
  then show ?case by (cases "m = Suc k") auto
qed

lemma isqrt_le: "isqrt n * isqrt n \<le> n"
  by (simp add: isqrt_def sqrt_search_le)

lemma isqrt_greatest: "m * m \<le> n \<Longrightarrow> m \<le> isqrt n"
proof -
  assume a: "m * m \<le> n"
  have "m \<le> m * m" by (cases m) simp_all
  then have "m \<le> n" using a by (rule le_trans)
  then show ?thesis using a by (simp add: isqrt_def sqrt_search_greatest)
qed

lemma isqrt_square: "isqrt (h * h) = h"
proof (rule antisym)
  have "isqrt (h * h) * isqrt (h * h) \<le> h * h" by (rule isqrt_le)
  then have "(isqrt (h * h))\<^sup>2 \<le> h\<^sup>2" by (simp add: power2_eq_square)
  then show "isqrt (h * h) \<le> h" by (simp only: power2_nat_le_eq_le)
  show "h \<le> isqrt (h * h)" by (rule isqrt_greatest) simp
qed

text \<open>The integer square root is the integer part of the real square root.\<close>

lemma isqrt_floor_sqrt: "int (isqrt n) = \<lfloor>sqrt (real n)\<rfloor>"
proof -
  let ?k = "isqrt n"
  have lo: "?k * ?k \<le> n" by (rule isqrt_le)
  have hi: "n < Suc ?k * Suc ?k"
  proof (rule ccontr)
    assume "\<not> n < Suc ?k * Suc ?k"
    then have "Suc ?k * Suc ?k \<le> n" by simp
    then have "Suc ?k \<le> ?k" by (rule isqrt_greatest)
    then show False by simp
  qed
  have "(real ?k)\<^sup>2 \<le> real n"
    using lo by (metis of_nat_le_iff of_nat_mult power2_eq_square)
  then have a: "real ?k \<le> sqrt (real n)" by (rule real_le_rsqrt)
  have "real n < (real (Suc ?k))\<^sup>2"
    using hi by (metis of_nat_less_iff of_nat_mult power2_eq_square)
  then have b: "sqrt (real n) < real (Suc ?k)" by (intro real_less_lsqrt) simp_all
  have "\<lfloor>sqrt (real n)\<rfloor> = int ?k"
    by (rule floor_unique) (use a b in simp_all)
  then show ?thesis by simp
qed

lemma permute_shape:
  assumes "sort dims = [0..<length (shape t)]"
  shows "\<exists>t'. permute t dims = Inr t' \<and> shape t' = gather_idx dims (shape t)
     \<and> length (data t') = prod_list (gather_idx dims (shape t))"
  using assms by (simp add: permute_def Let_def)

lemma patchify_value:
  assumes sh: "shape imgs = [B, C, H, W]" and P: "0 < P"
    and dv: "P dvd int H" "P dvd int W"
  shows "\<exists>t. permute (Tensor [B, C, H div nat P, nat P, W div nat P, nat P] (data imgs))
              [0, 2, 4, 3, 5, 1] = Inr t
     \<and> shape t = [B, H div nat P, W div nat P, nat P, nat P, C]
     \<and> length (data t) = prod_list [B, H div nat P, W div nat P, nat P, nat P, C]
     \<and> patchify imgs P =
         Inr (Tensor [B, (H div nat P) * (W div nat P), nat P * nat P * C] (data t))"
proof -
  let ?p = "nat P"
  let ?t1 = "Tensor [B, C, H div ?p, ?p, W div ?p, ?p] (data imgs)"
  have p: "0 < ?p" using P by simp
  have dH: "?p dvd H" and dW: "?p dvd W"
    using dv P by (metis int_dvd_int_iff int_nat_eq less_imp_le)+
  have H: "H div ?p * ?p = H" and W: "W div ?p * ?p = W" using dH dW by simp_all
  have md: "int H mod P = 0" "int W mod P = 0" using dv by simp_all
  have n1: "prod_list [B, C, H div ?p, ?p, W div ?p, ?p] = numel imgs"
  proof -
    have "B * (C * (H div ?p * (?p * (W div ?p * ?p)))) = B * (C * ((H div ?p * ?p) * (W div ?p * ?p)))"
      by (simp add: mult.assoc)
    then show ?thesis by (simp add: numel_def sh H W)
  qed
  have r1: "reshape imgs [B, C, H div ?p, ?p, W div ?p, ?p] = Inr ?t1"
    unfolding reshape_def using n1 by simp
  have "sort [0, 2, 4, 3, 5, 1] = [0..<length (shape ?t1)]"
    by (rule sort_patchify_dims_len) simp
  from permute_shape[OF this] obtain t where
    t: "permute ?t1 [0, 2, 4, 3, 5, 1] = Inr t"
    and st0: "shape t = gather_idx [0, 2, 4, 3, 5, 1] (shape ?t1)"
    and lt0: "length (data t) = prod_list (gather_idx [0, 2, 4, 3, 5, 1] (shape ?t1))"
    by blast
  have g: "gather_idx [0, 2, 4, 3, 5, 1] (shape ?t1) = [B, H div ?p, W div ?p, ?p, ?p, C]"
    by (simp add: gather_idx_def)
  have st: "shape t = [B, H div ?p, W div ?p, ?p, ?p, C]" using st0 g by simp
  have lt: "length (data t) = prod_list [B, H div ?p, W div ?p, ?p, ?p, C]" using lt0 g by simp
  have r2: "reshape t [B, (H div ?p) * (W div ?p), ?p * ?p * C]
     = Inr (Tensor [B, (H div ?p) * (W div ?p), ?p * ?p * C] (data t))"
    unfolding reshape_def numel_def st by (simp add: mult.assoc)
  have "patchify imgs P = Inr (Tensor [B, (H div ?p) * (W div ?p), ?p * ?p * C] (data t))"
    unfolding patchify_def sh using P md by (simp add: Let_def r1 t r2 del: One_nat_def)
  then show ?thesis using t st lt by blast
qed


lemma unpatchify_value:
  assumes sh: "shape patches = [B, h * h, nat P * nat P * C]" and P: "0 < P"
  shows "\<exists>t. permute (Tensor [B, h, h, nat P, nat P, C] (data patches))
              [0, 5, 1, 3, 2, 4] = Inr t
     \<and> shape t = [B, C, h, nat P, h, nat P]
     \<and> unpatchify patches P = Inr (Tensor [B, C, h * nat P, h * nat P] (data t))"
proof -
  let ?p = "nat P"
  let ?t1 = "Tensor [B, h, h, ?p, ?p, C] (data patches)"
  have p: "0 < ?p" using P by simp
  have pp: "nat (P * P) = ?p * ?p" using P by (simp add: nat_mult_distrib)
  have C: "(?p * ?p * C) div (?p * ?p) = C" using p by simp
  have r1: "reshape patches [B, h, h, ?p, ?p, C] = Inr ?t1"
    unfolding reshape_def numel_def sh by (simp add: mult.assoc)
  have "sort [0, 5, 1, 3, 2, 4] = [0..<length (shape ?t1)]"
    by (rule sort_unpatchify_dims_len) simp
  from permute_shape[OF this] obtain t where
    t: "permute ?t1 [0, 5, 1, 3, 2, 4] = Inr t"
    and st0: "shape t = gather_idx [0, 5, 1, 3, 2, 4] (shape ?t1)"
    by blast
  have st: "shape t = [B, C, h, ?p, h, ?p]" using st0 by (simp add: gather_idx_def)
  have r2: "reshape t [B, C, h * ?p, h * ?p] = Inr (Tensor [B, C, h * ?p, h * ?p] (data t))"
    unfolding reshape_def numel_def st by (simp add: mult.assoc)
  have "unpatchify patches P = Inr (Tensor [B, C, h * ?p, h * ?p] (data t))"
    unfolding unpatchify_def sh using P
    by (simp add: Let_def isqrt_square pp C r1 t r2 del: One_nat_def)
  then show ?thesis using t st by blast
qed


text \<open>
  C6. \<open>patchify\<close> with a patch size \<open>P \<ge> 1\<close> on a batch of shape \<open>[B, C, H, W]\<close>: when \<open>P\<close>
  divides both \<open>H\<close> and \<open>W\<close> the call returns a patch sequence of shape
  \<open>[B, (H/P) * (W/P), P * P * C]\<close>; otherwise the assertion fails at the call.
\<close>

theorem patchify_divisibility:
  assumes "shape imgs = [B, C, H, W]" and "0 < P"
  shows "if P dvd int H \<and> P dvd int W
         then \<exists>t. patchify imgs P = Inr t
                \<and> shape t = [B, (H div nat P) * (W div nat P), nat P * nat P * C]
                \<and> wf_tensor t
         else patchify imgs P = Inl AssertionError"
proof (cases "P dvd int H \<and> P dvd int W")
  case True
  then have "P dvd int H" "P dvd int W" by simp_all
  from patchify_value[OF assms this] show ?thesis
    using True by (auto simp: wf_tensor_def mult.assoc)
next
  case False
  then have "\<not> (int H mod P = 0 \<and> int W mod P = 0)" by (simp add: dvd_eq_mod_eq_0)
  then have "patchify imgs P = Inl AssertionError"
    unfolding patchify_def using assms by simp
  then show ?thesis using False by simp
qed

theorem patchify_divisibility_witness:
  "shape (Tensor [2, 3, 8, 8] (replicate 384 (Fin 0))) = [2, 3, 8, 8] \<and> (0::int) < 4
   \<and> (\<exists>t. patchify (Tensor [2, 3, 8, 8] (replicate 384 (Fin 0))) 4 = Inr t
          \<and> shape t = [2, 4, 48] \<and> wf_tensor t)
   \<and> patchify (Tensor [1, 1, 3, 4] (replicate 12 (Fin 0))) 2 = Inl AssertionError"
  using patchify_divisibility[of "Tensor [2, 3, 8, 8] (replicate 384 (Fin 0))" 2 3 8 8 4]
    patchify_divisibility[of "Tensor [1, 1, 3, 4] (replicate 12 (Fin 0))" 1 1 3 4 2]
  by simp

text \<open>
  C1, as the code has it: on a batch of square images (\<open>H = W\<close>, a multiple of the patch
  size \<open>P \<ge> 1\<close>) \<open>unpatchify\<close> of \<open>patchify\<close> gives the batch back, element for element and
  with its shape, for every batch size and channel count.
\<close>

theorem unpatchify_patchify_square:
  assumes wf: "wf_tensor imgs" and sh: "shape imgs = [B, C, H, H]"
    and P: "0 < P" and dv: "P dvd int H"
  shows "\<exists>t. patchify imgs P = Inr t \<and> unpatchify t P = Inr imgs"
proof -
  let ?p = "nat P" and ?h = "H div nat P"
  let ?t1 = "Tensor [B, C, ?h, ?p, ?h, ?p] (data imgs)"
  have dH: "?p dvd H" using dv P by (metis int_dvd_int_iff int_nat_eq less_imp_le)
  have H: "?h * ?p = H" using dH by simp
  from patchify_value[OF sh P dv dv] obtain t2 where
    t2: "permute ?t1 [0, 2, 4, 3, 5, 1] = Inr t2"
    and st2: "shape t2 = [B, ?h, ?h, ?p, ?p, C]"
    and pf: "patchify imgs P = Inr (Tensor [B, ?h * ?h, ?p * ?p * C] (data t2))"
    by blast
  let ?t3 = "Tensor [B, ?h * ?h, ?p * ?p * C] (data t2)"
  have "shape ?t3 = [B, ?h * ?h, ?p * ?p * C]" by simp
  from unpatchify_value[OF this P] obtain u where
    u: "permute (Tensor [B, ?h, ?h, ?p, ?p, C] (data ?t3)) [0, 5, 1, 3, 2, 4] = Inr u"
    and un: "unpatchify ?t3 P = Inr (Tensor [B, C, ?h * ?p, ?h * ?p] (data u))"
    by blast
  have t2_eq: "Tensor [B, ?h, ?h, ?p, ?p, C] (data ?t3) = t2"
    using st2 by (cases t2) simp
  have wf1: "wf_tensor ?t1"
  proof -
    have "B * (C * (?h * (?p * (?h * ?p)))) = B * (C * ((?h * ?p) * (?h * ?p)))"
      by (simp add: mult.assoc)
    then show ?thesis using wf by (simp add: wf_tensor_def sh H)
  qed
  have "permute t2 [0, 5, 1, 3, 2, 4] = Inr ?t1"
  proof (rule permute_inverse[OF wf1 _ _ _ _ t2])
    show "sort [0, 2, 4, 3, 5, 1] = [0..<length (shape ?t1)]"
      by (rule sort_patchify_dims_len) simp
    show "sort [0, 5, 1, 3, 2, 4] = [0..<length (shape ?t1)]"
      by (rule sort_unpatchify_dims_len) simp
    show "[0, 5, 1, 3, 2, 4] = inv_perm [0, 2, 4, 3, 5, 1]"
      by (simp only: inv_patchify_dims)
    show "inv_perm [0, 5, 1, 3, 2, 4] = [0, 2, 4, 3, 5, 1]"
      by (simp only: inv_unpatchify_dims)
  qed
  then have "u = ?t1" using u t2_eq by simp
  then have "unpatchify ?t3 P = Inr (Tensor [B, C, H, H] (data imgs))"
    using un H by simp
  moreover have "Tensor [B, C, H, H] (data imgs) = imgs" using sh by (cases imgs) simp
  ultimately show ?thesis using pf by simp
qed

theorem unpatchify_patchify_square_witness:
  "wf_tensor (Tensor [1, 2, 4, 4] (map (\<lambda>i. Fin (real i)) [0..<32]))
   \<and> (0::int) < 2 \<and> (2::int) dvd int 4
   \<and> (\<exists>t. patchify (Tensor [1, 2, 4, 4] (map (\<lambda>i. Fin (real i)) [0..<32])) 2 = Inr t
          \<and> unpatchify t 2 = Inr (Tensor [1, 2, 4, 4] (map (\<lambda>i. Fin (real i)) [0..<32])))"
  using unpatchify_patchify_square[of "Tensor [1, 2, 4, 4] (map (\<lambda>i. Fin (real i)) [0..<32])" 1 2 4 2]
  by (simp add: wf_tensor_def)

text \<open>
  C1 as stated fails when height and width differ: a \<open>1 \<times> 4\<close> image with patch size 1 comes
  back as a \<open>2 \<times> 2\<close> image, and a \<open>1 \<times> 2\<close> image is rejected by \<open>unpatchify\<close>.
\<close>

theorem unpatchify_patchify_counterexample:
  "patchify (Tensor [1, 1, 1, 4] [Fin 1, Fin 2, Fin 3, Fin 4]) 1
     = Inr (Tensor [1, 4, 1] [Fin 1, Fin 2, Fin 3, Fin 4])
   \<and> unpatchify (Tensor [1, 4, 1] [Fin 1, Fin 2, Fin 3, Fin 4]) 1
     = Inr (Tensor [1, 1, 2, 2] [Fin 1, Fin 2, Fin 3, Fin 4])
   \<and> patchify (Tensor [1, 1, 1, 2] [Fin 1, Fin 2]) 1 = Inr (Tensor [1, 2, 1] [Fin 1, Fin 2])
   \<and> unpatchify (Tensor [1, 2, 1] [Fin 1, Fin 2]) 1 = Inl RuntimeError"
  by code_simp




section \<open>Sums of values and operations on equal shapes\<close>

lemma fadd_zero_left: "fadd (Fin 0) x = x"
  by (cases x) simp_all

lemma fadd_zero_right: "fadd x (Fin 0) = x"
  by (cases x) simp_all

lemma fadd_assoc: "fadd (fadd a b) c = fadd a (fadd b c)"
  by (cases a; cases b; cases c) simp_all

lemma foldl_fadd: "foldl fadd a xs = fadd a (fsum xs)"
proof (induction xs arbitrary: a)
  case Nil
  then show ?case by (simp add: fsum_def fadd_zero_right)
next
  case (Cons x xs)
  have "foldl fadd a (x # xs) = fadd (fadd a x) (fsum xs)" using Cons.IH by simp
  also have "\<dots> = fadd a (fadd x (fsum xs))" by (rule fadd_assoc)
  also have "fadd x (fsum xs) = fsum (x # xs)"
    using Cons.IH[of "fadd (Fin 0) x"] by (simp add: fsum_def fadd_zero_left)
  finally show ?case .
qed

lemma fsum_Nil: "fsum [] = Fin 0"
  by (simp add: fsum_def)

lemma fsum_Cons: "fsum (x # xs) = fadd x (fsum xs)"
  using foldl_fadd[of "fadd (Fin 0) x" xs] by (simp add: fsum_def fadd_zero_left)

lemma fsum_append: "fsum (xs @ ys) = fadd (fsum xs) (fsum ys)"
  by (induction xs) (simp_all add: fsum_Nil fsum_Cons fadd_zero_left fadd_assoc)

lemma fsum_concat: "fsum (concat xss) = fsum (map fsum xss)"
  by (induction xss) (simp_all add: fsum_Nil fsum_Cons fsum_append)


lemma fsum_zeros: "\<forall>x\<in>set xs. x = Fin 0 \<Longrightarrow> fsum xs = Fin 0"
  by (induction xs) (simp_all add: fsum_Nil fsum_Cons)

lemma fsum_zero_or_nan: "\<forall>x\<in>set xs. x = Fin 0 \<or> x = NaN \<Longrightarrow> fsum xs = Fin 0 \<or> fsum xs = NaN"
  by (induction xs) (auto simp: fsum_Nil fsum_Cons)

lemma fsum_finite: "\<forall>x\<in>set xs. is_fin x \<Longrightarrow> is_fin (fsum xs)"
proof (induction xs)
  case Nil
  then show ?case by (simp add: fsum_Nil)
next
  case (Cons x xs)
  then obtain a b where "x = Fin a" "fsum xs = Fin b"
    by (cases x; cases "fsum xs") simp_all
  then show ?case by (simp add: fsum_Cons)
qed

lemma fdiv_by_zero: "\<not> is_fin (fdiv x (Fin 0))"
  by (cases x) simp_all

lemma map_grid:
  "map F [0..<B * N] = concat (map (\<lambda>b. map (\<lambda>n. F (b * N + n)) [0..<N]) [0..<B])"
proof (induction B)
  case 0
  then show ?case by simp
next
  case (Suc B)
  have "[0..<Suc B * N] = [0..<B * N] @ [B * N..<B * N + N]"
    by (metis add.commute le_add1 mult_Suc upt_add_eq_append zero_le)
  moreover have "map F [B * N..<B * N + N] = map (\<lambda>n. F (B * N + n)) [0..<N]"
    by (rule map_upt_eqI) simp_all
  ultimately show ?case using Suc.IH by simp
qed

lemma fsum_grid:
  "fsum (map F [0..<B * N]) = fsum (map (\<lambda>b. fsum (map (\<lambda>n. F (b * N + n)) [0..<N])) [0..<B])"
  by (simp add: map_grid fsum_concat comp_def)

lemma bshape_rev_same: "bshape_rev xs xs = Some xs"
  by (induction xs) simp_all

lemma broadcast_shapes_same: "broadcast_shapes s s = Some s"
  by (simp add: broadcast_shapes_def bshape_rev_same)

lemma bcast_index_valid: "valid_index s idx \<Longrightarrow> bcast_index s idx = idx"
proof -
  assume v: "valid_index s idx"
  then have len: "length idx = length s" by (rule valid_index_length)
  have "map2 (\<lambda>d i. if d = 1 then 0 else i) s idx = idx"
  proof (rule nth_equalityI)
    show "length (map2 (\<lambda>d i. if d = 1 then 0 else i) s idx) = length idx"
      using len by simp
    fix i assume "i < length (map2 (\<lambda>d i. if d = 1 then 0 else i) s idx)"
    then have i: "i < length idx" using len by simp
    then have "idx ! i < s ! i"
      using v by (simp add: valid_index_def list_all2_conv_all_nth)
    then show "map2 (\<lambda>d i. if d = 1 then 0 else i) s idx ! i = idx ! i"
      using i len by auto
  qed
  then show ?thesis by (simp add: bcast_index_def len)
qed

lemma expand_same: "wf_tensor t \<Longrightarrow> expand t (shape t) = t"
proof -
  assume wf: "wf_tensor t"
  have "map (\<lambda>j. data t ! ravel (shape t) (bcast_index (shape t) (unravel (shape t) j)))
            [0..<prod_list (shape t)] = map (\<lambda>j. data t ! j) [0..<prod_list (shape t)]"
    by (rule map_cong[OF refl]) (simp add: bcast_index_valid unravel_valid ravel_unravel)
  also have "\<dots> = data t" using wf by (metis wf_tensor_def map_nth)
  finally show ?thesis by (cases t) (simp add: expand_def)
qed

lemma binop_same:
  "wf_tensor a \<Longrightarrow> wf_tensor b \<Longrightarrow> shape a = shape b \<Longrightarrow>
   binop f a b = Inr (Tensor (shape a) (map2 f (data a) (data b)))"
  using expand_same[of a] expand_same[of b]
  by (simp add: binop_def broadcast_shapes_same)

section \<open>Masked loss: the formula and the values outside the finite range\<close>

lemma map2_upt:
  "length ys = n \<Longrightarrow> map2 f (map g [0..<n]) ys = map (\<lambda>k. f (g k) (ys ! k)) [0..<n]"
  by (rule nth_equalityI) simp_all

lemma grid_index:
  fixes k B N :: nat
  assumes "k < B * N"
  shows "k div N < B" and "k mod N < N" and "k div N * N + k mod N = k"
proof -
  have N: "0 < N" using assms by (cases N) simp_all
  show "k div N < B" using assms by (simp add: less_mult_imp_div_less)
  show "k mod N < N" using N by simp
  show "k div N * N + k mod N = k" by simp
qed

lemma chunk_bound: "k < M \<Longrightarrow> d < D \<Longrightarrow> k * D + d < M * (D::nat)"
proof -
  assume k: "k < M" and d: "d < D"
  have "k * D + d < k * D + D" using d by simp
  also have "\<dots> = Suc k * D" by simp
  also have "\<dots> \<le> M * D" using k by (intro mult_le_mono1) simp
  finally show ?thesis .
qed

lemma take_drop_chunk:
  assumes "length xs = M * D" and "k < M"
  shows "take D (drop (k * D) xs) = map (\<lambda>d. xs ! (k * D + d)) [0..<D]"
proof (rule nth_equalityI)
  have "Suc k * D \<le> M * D" using assms(2) by (intro mult_le_mono1) simp
  then have "k * D + D \<le> length xs" using assms(1) by simp
  then show len: "length (take D (drop (k * D) xs)) = length (map (\<lambda>d. xs ! (k * D + d)) [0..<D])"
    by simp
  fix i assume "i < length (take D (drop (k * D) xs))"
  then have i: "i < D" using len by simp
  then show "take D (drop (k * D) xs) ! i = map (\<lambda>d. xs ! (k * D + d)) [0..<D] ! i"
    using \<open>k * D + D \<le> length xs\<close> by simp
qed

lemma patch_at_length: "shape t = [B, N, D] \<Longrightarrow> length (patch_at t b n) = D"
  by (simp add: patch_at_def)

lemma patch_at_nth:
  "shape t = [B, N, D] \<Longrightarrow> d < D \<Longrightarrow> patch_at t b n ! d = data t ! ((b * N + n) * D + d)"
  by (simp add: patch_at_def)

lemma mask_at_data: "shape m = [B, N] \<Longrightarrow> mask_at m b n = data m ! (b * N + n)"
  by (simp add: mask_at_def)

text \<open>The value of the loss on sequences of one shape, position by position.\<close>

lemma compute_loss_value:
  assumes so: "shape original = [B, N, D]" and sr: "shape reconstructed = [B, N, D]"
    and sm: "shape msk = [B, N]"
    and wo: "wf_tensor original" and wr: "wf_tensor reconstructed" and wm: "wf_tensor msk"
  shows "compute_loss original reconstructed msk =
     Inr (fdiv (fsum (map (\<lambda>k. fmul (error_surface original reconstructed (k div N) (k mod N))
                                   (data msk ! k)) [0..<B * N]))
               (fsum (data msk)))"
proof -
  let ?o = "data original" and ?r = "data reconstructed"
  define sq where "sq = map fsquare (map2 fsub ?o ?r)"
  have lo: "length ?o = B * N * D" and lr: "length ?r = B * N * D"
    using wo wr so sr by (simp_all add: wf_tensor_def mult.assoc)
  have lm: "length (data msk) = B * N" using wm sm by (simp add: wf_tensor_def)
  have lsq: "length sq = B * N * D" using lo lr by (simp add: sq_def)
  have diff: "binop fsub original reconstructed = Inr (Tensor [B, N, D] (map2 fsub ?o ?r))"
    using binop_same[OF wo wr, of fsub] so sr by simp
  let ?E = "\<lambda>k. fdiv (fsum (take D (drop (k * D) sq))) (Fin (real D))"
  have ml: "mean_last (tmap fsquare (Tensor [B, N, D] (map2 fsub ?o ?r)))
      = Tensor [B, N] (map ?E [0..<B * N])"
    by (simp add: mean_last_def tmap_def Let_def sq_def)
  have wl: "wf_tensor (Tensor [B, N] (map ?E [0..<B * N]))" by (simp add: wf_tensor_def)
  have w: "binop fmul (Tensor [B, N] (map ?E [0..<B * N])) msk
      = Inr (Tensor [B, N] (map (\<lambda>k. fmul (?E k) (data msk ! k)) [0..<B * N]))"
    using binop_same[OF wl wm, of fmul] sm lm by (simp add: map2_upt)
  have E: "?E k = error_surface original reconstructed (k div N) (k mod N)"
    if k: "k < B * N" for k
  proof -
    have idx: "k div N * N + k mod N = k" by simp
    have "take D (drop (k * D) sq) = map (\<lambda>d. sq ! (k * D + d)) [0..<D]"
      using lsq k by (rule take_drop_chunk)
    also have "\<dots> = map (\<lambda>d. fsquare (fsub (?o ! (k * D + d)) (?r ! (k * D + d)))) [0..<D]"
    proof (rule map_cong[OF refl])
      fix d assume "d \<in> set [0..<D]"
      then have "k * D + d < B * N * D" using k by (simp add: chunk_bound)
      then show "sq ! (k * D + d) = fsquare (fsub (?o ! (k * D + d)) (?r ! (k * D + d)))"
        using lo lr by (simp add: sq_def)
    qed
    also have "\<dots> = map (\<lambda>d. fsquare (fsub (patch_at original (k div N) (k mod N) ! d)
                                        (patch_at reconstructed (k div N) (k mod N) ! d)))
                       [0..<D]"
      by (rule map_cong[OF refl]) (simp add: patch_at_nth[OF so] patch_at_nth[OF sr])
    finally show ?thesis
      by (simp add: error_surface_def patch_error_def patch_at_length[OF so])
  qed
  have "map (\<lambda>k. fmul (?E k) (data msk ! k)) [0..<B * N]
      = map (\<lambda>k. fmul (error_surface original reconstructed (k div N) (k mod N))
                       (data msk ! k)) [0..<B * N]"
    by (rule map_cong[OF refl]) (simp add: E)
  then have "binop fmul (Tensor [B, N] (map ?E [0..<B * N])) msk
      = Inr (Tensor [B, N] (map (\<lambda>k. fmul (error_surface original reconstructed (k div N) (k mod N))
                       (data msk ! k)) [0..<B * N]))"
    using w by simp
  then show ?thesis
    unfolding compute_loss_def diff by (simp only: ml Let_def tsum_def sum.case tensor.sel)
qed

lemma masked_loss_spec_flat:
  assumes sm: "shape msk = [B, N]" and wm: "wf_tensor msk"
  shows "masked_loss_spec original reconstructed msk =
     fdiv (fsum (map (\<lambda>k. fmul (error_surface original reconstructed (k div N) (k mod N))
                              (data msk ! k)) [0..<B * N]))
          (fsum (data msk))"
proof -
  have lm: "length (data msk) = B * N" using wm sm by (simp add: wf_tensor_def)
  let ?F = "\<lambda>k. fmul (error_surface original reconstructed (k div N) (k mod N)) (data msk ! k)"
  have num: "fsum (map (\<lambda>b. fsum (map (\<lambda>n. fmul (error_surface original reconstructed b n)
                                             (mask_at msk b n)) [0..<N])) [0..<B])
           = fsum (map ?F [0..<B * N])"
  proof -
    have "map (\<lambda>n. fmul (error_surface original reconstructed b n) (mask_at msk b n)) [0..<N]
        = map (\<lambda>n. ?F (b * N + n)) [0..<N]" for b
      by (rule map_cong[OF refl]) (simp add: mask_at_data[OF sm])
    then show ?thesis by (simp only: fsum_grid[of ?F B N])
  qed
  have den: "fsum (map (\<lambda>b. fsum (map (\<lambda>n. mask_at msk b n) [0..<N])) [0..<B]) = fsum (data msk)"
  proof -
    have "fsum (data msk) = fsum (map (\<lambda>k. data msk ! k) [0..<B * N])"
      using lm by (metis map_nth)
    also have "\<dots> = fsum (map (\<lambda>b. fsum (map (\<lambda>n. data msk ! (b * N + n)) [0..<N])) [0..<B])"
      by (rule fsum_grid)
    finally show ?thesis by (simp add: mask_at_data[OF sm])
  qed
  show ?thesis
    unfolding masked_loss_spec_def by (simp add: sm Let_def num den)
qed


lemma patch_error_same:
  assumes "\<forall>d<length x. is_fin (x ! d)" and "0 < length x"
  shows "patch_error x x = Fin 0"
proof -
  have "\<forall>v\<in>set (map (\<lambda>d. fsquare (fsub (x ! d) (x ! d))) [0..<length x]). v = Fin 0"
  proof
    fix v assume "v \<in> set (map (\<lambda>d. fsquare (fsub (x ! d) (x ! d))) [0..<length x])"
    then obtain d where d: "d < length x" and v: "v = fsquare (fsub (x ! d) (x ! d))" by auto
    from assms(1) d obtain a where "x ! d = Fin a" by (cases "x ! d") auto
    then show "v = Fin 0" using v by (simp add: fsquare_def fsub_def)
  qed
  then have "fsum (map (\<lambda>d. fsquare (fsub (x ! d) (x ! d))) [0..<length x]) = Fin 0"
    by (rule fsum_zeros)
  then show ?thesis using assms(2) by (simp add: patch_error_def)
qed

lemma fmul_zero_right: "fmul x (Fin 0) = Fin 0 \<or> fmul x (Fin 0) = NaN"
  by (cases x) simp_all

text \<open>
  C4, as the code has it. For sequences of one shape \<open>[B, N, D]\<close> and a mask \<open>[B, N]\<close> the
  loss is the squared error mean-reduced over \<open>D\<close>, times the mask, summed, divided by
  the sum of the mask. When the reconstruction equals the original, all values of the
  original and of the mask are finite, \<open>D > 0\<close> and the mask sum is not zero, the loss is 0.
\<close>

theorem compute_loss_masked_mean:
  assumes so: "shape original = [B, N, D]" and sr: "shape reconstructed = [B, N, D]"
    and sm: "shape msk = [B, N]"
    and wo: "wf_tensor original" and wr: "wf_tensor reconstructed" and wm: "wf_tensor msk"
  shows "compute_loss original reconstructed msk
           = Inr (masked_loss_spec original reconstructed msk)
       \<and> (0 < D \<and> (\<forall>x\<in>set (data original). is_fin x) \<and> (\<forall>x\<in>set (data msk). is_fin x)
            \<and> tsum msk \<noteq> Fin 0
          \<longrightarrow> compute_loss original original msk = Inr (Fin 0))"
proof (intro conjI impI)
  show "compute_loss original reconstructed msk
           = Inr (masked_loss_spec original reconstructed msk)"
    by (simp only: compute_loss_value[OF so sr sm wo wr wm] masked_loss_spec_flat[OF sm wm])
next
  assume a: "0 < D \<and> (\<forall>x\<in>set (data original). is_fin x) \<and> (\<forall>x\<in>set (data msk). is_fin x)
            \<and> tsum msk \<noteq> Fin 0"
  have lo: "length (data original) = B * N * D"
    using wo so by (simp add: wf_tensor_def mult.assoc)
  have lm: "length (data msk) = B * N" using wm sm by (simp add: wf_tensor_def)
  have tm: "fmul (error_surface original original (k div N) (k mod N)) (data msk ! k) = Fin 0"
    if k: "k < B * N" for k
  proof -
    have "\<forall>d<length (patch_at original (k div N) (k mod N)).
            is_fin (patch_at original (k div N) (k mod N) ! d)"
    proof (intro allI impI)
      fix d assume "d < length (patch_at original (k div N) (k mod N))"
      then have d: "d < D" by (simp add: patch_at_length[OF so])
      then have "k * D + d < length (data original)" using k lo by (simp add: chunk_bound)
      then have "data original ! (k * D + d) \<in> set (data original)" by (rule nth_mem)
      then show "is_fin (patch_at original (k div N) (k mod N) ! d)"
        using a d by (simp add: patch_at_nth[OF so])
    qed
    then have "error_surface original original (k div N) (k mod N) = Fin 0"
      unfolding error_surface_def using a
      by (intro patch_error_same) (simp_all add: patch_at_length[OF so])
    moreover have "is_fin (data msk ! k)" using a k lm by simp
    then obtain c where "data msk ! k = Fin c" by (cases "data msk ! k") auto
    ultimately show ?thesis by simp
  qed
  have "\<forall>v\<in>set (map (\<lambda>k. fmul (error_surface original original (k div N) (k mod N))
                                (data msk ! k)) [0..<B * N]). v = Fin 0"
    using tm by auto
  then have num: "fsum (map (\<lambda>k. fmul (error_surface original original (k div N) (k mod N))
                                (data msk ! k)) [0..<B * N]) = Fin 0"
    by (rule fsum_zeros)
  have "is_fin (fsum (data msk))" using a by (intro fsum_finite) simp
  then obtain c where c: "fsum (data msk) = Fin c" by (cases "fsum (data msk)") auto
  then have "c \<noteq> 0" using a by (simp add: tsum_def)
  then show "compute_loss original original msk = Inr (Fin 0)"
    by (simp add: compute_loss_value[OF so so sm wo wo wm] num c)
qed

theorem compute_loss_masked_mean_witness:
  "wf_tensor (Tensor [1, 2, 1] [Fin 1, Fin 2]) \<and> wf_tensor (Tensor [1, 2, 1] [Fin 3, Fin 2])
   \<and> wf_tensor (Tensor [1, 2] [Fin 1, Fin 0]) \<and> tsum (Tensor [1, 2] [Fin 1, Fin 0]) \<noteq> Fin 0
   \<and> compute_loss (Tensor [1, 2, 1] [Fin 1, Fin 2]) (Tensor [1, 2, 1] [Fin 3, Fin 2])
        (Tensor [1, 2] [Fin 1, Fin 0])
     = Inr (masked_loss_spec (Tensor [1, 2, 1] [Fin 1, Fin 2]) (Tensor [1, 2, 1] [Fin 3, Fin 2])
        (Tensor [1, 2] [Fin 1, Fin 0]))
   \<and> compute_loss (Tensor [1, 2, 1] [Fin 1, Fin 2]) (Tensor [1, 2, 1] [Fin 1, Fin 2])
        (Tensor [1, 2] [Fin 1, Fin 0]) = Inr (Fin 0)"
  using compute_loss_masked_mean[of "Tensor [1, 2, 1] [Fin 1, Fin 2]" 1 2 1
      "Tensor [1, 2, 1] [Fin 3, Fin 2]" "Tensor [1, 2] [Fin 1, Fin 0]"]
  by (simp add: wf_tensor_def tsum_def fsum_def)

text \<open>
  C4 as stated fails where the arithmetic leaves the finite values: an infinite value
  gives \<open>inf - inf = NaN\<close>, and an empty patch dimension gives the mean \<open>0 / 0 = NaN\<close>, although
  the reconstruction equals the original and the mask sums to 1.
\<close>

theorem compute_loss_masked_mean_counterexample:
  "compute_loss (Tensor [1, 1, 1] [PInf]) (Tensor [1, 1, 1] [PInf]) (Tensor [1, 1] [Fin 1])
     = Inr NaN
   \<and> compute_loss (Tensor [1, 1, 0] []) (Tensor [1, 1, 0] []) (Tensor [1, 1] [Fin 1])
     = Inr NaN"
  by code_simp




lemma compute_loss_all_zero:
  assumes so: "shape original = [B, N, D]" and sr: "shape reconstructed = [B, N, D]"
    and sm: "shape msk = [B, N]"
    and wo: "wf_tensor original" and wr: "wf_tensor reconstructed" and wm: "wf_tensor msk"
    and z: "\<forall>x\<in>set (data msk). x = Fin 0"
  shows "compute_loss original reconstructed msk = Inr NaN"
proof -
  have lm: "length (data msk) = B * N" using wm sm by (simp add: wf_tensor_def)
  let ?num = "fsum (map (\<lambda>k. fmul (error_surface original reconstructed (k div N) (k mod N))
                                (data msk ! k)) [0..<B * N])"
  have "\<forall>v\<in>set (map (\<lambda>k. fmul (error_surface original reconstructed (k div N) (k mod N))
                                (data msk ! k)) [0..<B * N]). v = Fin 0 \<or> v = NaN"
  proof
    fix v assume "v \<in> set (map (\<lambda>k. fmul (error_surface original reconstructed (k div N) (k mod N))
                                (data msk ! k)) [0..<B * N])"
    then obtain k where k: "k < B * N"
      and v: "v = fmul (error_surface original reconstructed (k div N) (k mod N)) (data msk ! k)"
      by auto
    have "data msk ! k = Fin 0" using z k lm by simp
    then show "v = Fin 0 \<or> v = NaN" using v fmul_zero_right by simp
  qed
  then have "?num = Fin 0 \<or> ?num = NaN" by (rule fsum_zero_or_nan)
  moreover have "fsum (data msk) = Fin 0" using z by (rule fsum_zeros)
  ultimately show ?thesis
    by (auto simp: compute_loss_value[OF so sr sm wo wr wm])
qed

text \<open>
  C7. When the mask sums to zero \<open>compute_loss\<close> raises nothing: it returns a value that
  is not finite, and for a mask of zeros (an indicator mask without hidden patches) the
  value is NaN.
\<close>

theorem compute_loss_zero_mask:
  assumes so: "shape original = [B, N, D]" and sr: "shape reconstructed = [B, N, D]"
    and sm: "shape msk = [B, N]"
    and wo: "wf_tensor original" and wr: "wf_tensor reconstructed" and wm: "wf_tensor msk"
  shows "(tsum msk = Fin 0 \<longrightarrow>
            (\<exists>v. compute_loss original reconstructed msk = Inr v \<and> \<not> is_fin v))
       \<and> ((\<forall>x\<in>set (data msk). x = Fin 0) \<longrightarrow>
            compute_loss original reconstructed msk = Inr NaN)"
proof (intro conjI impI)
  assume "tsum msk = Fin 0"
  then show "\<exists>v. compute_loss original reconstructed msk = Inr v \<and> \<not> is_fin v"
    by (simp add: compute_loss_value[OF so sr sm wo wr wm] tsum_def fdiv_by_zero)
next
  assume "\<forall>x\<in>set (data msk). x = Fin 0"
  then show "compute_loss original reconstructed msk = Inr NaN"
    by (rule compute_loss_all_zero[OF so sr sm wo wr wm])
qed

theorem compute_loss_zero_mask_witness:
  "wf_tensor (Tensor [1, 2, 1] [Fin 1, Fin 1]) \<and> wf_tensor (Tensor [1, 2] [Fin 0, Fin 0])
   \<and> tsum (Tensor [1, 2] [Fin 0, Fin 0]) = Fin 0
   \<and> compute_loss (Tensor [1, 2, 1] [Fin 1, Fin 1]) (Tensor [1, 2, 1] [Fin 1, Fin 1])
        (Tensor [1, 2] [Fin 0, Fin 0]) = Inr NaN"
  using compute_loss_zero_mask[of "Tensor [1, 2, 1] [Fin 1, Fin 1]" 1 2 1
      "Tensor [1, 2, 1] [Fin 1, Fin 1]" "Tensor [1, 2] [Fin 0, Fin 0]"]
  by (simp add: wf_tensor_def tsum_def fsum_def)

section \<open>Sorting indices, slices and rows\<close>

lemma draws_length: "length (fst (draws draw n g)) = n"
  by (induction n arbitrary: g) (simp_all add: split_beta Let_def)

lemma slice_len_le: "slice_len k n \<le> n"
  by (simp add: slice_len_def)

lemma argsort_length: "length (argsort xs) = length xs"
  by (simp add: argsort_def)

lemma argsort_set: "set (argsort xs) = {0..<length xs}"
proof -
  have m: "map snd (zip xs [0..<length xs]) = [0..<length xs]"
    by (rule map_snd_zip) simp
  have "set (argsort xs) = snd ` set (zip xs [0..<length xs])"
    by (simp add: argsort_def)
  also have "\<dots> = set (map snd (zip xs [0..<length xs]))" by (simp only: set_map)
  finally show ?thesis by (simp only: m set_upt)
qed

lemma argsort_distinct: "distinct (argsort xs)"
proof (rule card_distinct)
  show "card (set (argsort xs)) = length (argsort xs)"
    by (simp add: argsort_set argsort_length)
qed

text \<open>The \<open>argsort\<close> of a permutation of \<open>0, \<dots>, N - 1\<close> is its inverse.\<close>

lemma argsort_inverse:
  assumes len: "length p = N" and st: "set p = {0..<N}" and n: "n < N"
  shows "argsort p ! n < N" and "p ! (argsort p ! n) = n"
proof -
  let ?zs = "zip p [0..<length p]"
  let ?q = "argsort p"
  have "?q ! n \<in> set ?q" using n len by (intro nth_mem) (simp add: argsort_length)
  then show lt: "?q ! n < N" using len by (simp add: argsort_set)
  have fst_snd: "p ! snd z = fst z" if "z \<in> set ?zs" for z
    using that by (auto simp: set_zip)
  have "map (\<lambda>i. p ! i) ?q = map (\<lambda>z. p ! snd z) (sort_key fst ?zs)"
    by (simp add: argsort_def comp_def)
  also have "\<dots> = map fst (sort_key fst ?zs)"
    by (rule map_cong[OF refl]) (simp add: fst_snd)
  finally have eq: "map (\<lambda>i. p ! i) ?q = map fst (sort_key fst ?zs)" .
  have srt: "sorted (map fst (sort_key fst ?zs))" by (rule sorted_sort_key)
  have m: "map fst ?zs = p" by (rule map_fst_zip) simp
  have "set (map fst (sort_key fst ?zs)) = fst ` set ?zs" by simp
  also have "\<dots> = set (map fst ?zs)" by (simp only: set_map)
  finally have s: "set (map fst (sort_key fst ?zs)) = {0..<N}" using st by (simp only: m)
  have l: "length (map fst (sort_key fst ?zs)) = N" using len by simp
  have d: "distinct (map fst (sort_key fst ?zs))"
    by (rule card_distinct) (simp only: s l card_atLeastLessThan minus_nat.diff_0)
  have "map fst (sort_key fst ?zs) = [0..<N]"
    by (rule sorted_distinct_set_unique[OF srt d]) (use s in simp_all)
  then have "map (\<lambda>i. p ! i) ?q ! n = [0..<N] ! n" using eq by simp
  then show "p ! (?q ! n) = n" using n len by (simp add: argsort_length)
qed

lemma argsort_rank:
  assumes len: "length p = N" and st: "set p = {0..<N}" and n: "n < N" and K: "K \<le> N"
  shows "argsort p ! n < K \<longleftrightarrow> n \<in> set (take K p)"
proof
  assume a: "argsort p ! n < K"
  have "p ! (argsort p ! n) = n" by (rule argsort_inverse[OF len st n])
  then have "take K p ! (argsort p ! n) = n" using a by simp
  moreover have "argsort p ! n < length (take K p)" using a K len by simp
  ultimately show "n \<in> set (take K p)" by (metis nth_mem)
next
  assume "n \<in> set (take K p)"
  then obtain j where j: "j < length (take K p)" and pj: "take K p ! j = n"
    by (auto simp: in_set_conv_nth)
  then have jK: "j < K" and jN: "j < N" using len by simp_all
  have d: "distinct p"
    by (rule card_distinct) (simp add: st len)
  have "p ! (argsort p ! n) = p ! j"
    using argsort_inverse(2)[OF len st n] pj jK by simp
  then have "argsort p ! n = j"
    using d argsort_inverse(1)[OF len st n] jN len by (simp add: nth_eq_iff_index_eq)
  then show "argsort p ! n < K" using jK by simp
qed

lemma concat_rows_chunk:
  "\<forall>r\<in>set rows. length r = N \<Longrightarrow> b < length rows \<Longrightarrow>
   take N (drop (b * N) (concat rows)) = rows ! b"
proof (induction rows arbitrary: b)
  case Nil
  then show ?case by simp
next
  case (Cons r rows)
  show ?case
  proof (cases b)
    case 0
    then show ?thesis using Cons.prems by simp
  next
    case (Suc b')
    then have "take N (drop (b' * N) (concat rows)) = rows ! b'"
      using Cons by simp
    then show ?thesis using Cons.prems Suc by (simp add: add.commute)
  qed
qed

lemma concat_rows_length:
  "\<forall>r\<in>set rows. length r = N \<Longrightarrow> length (concat rows) = length rows * N"
  by (induction rows) simp_all

lemma grid_bound: "b < B \<Longrightarrow> n < N \<Longrightarrow> b * N + n < B * (N::nat)"
  by (rule chunk_bound)

lemma concat_rows_nth:
  assumes "\<forall>r\<in>set rows. length r = N" and "b < length rows" and "n < N"
  shows "concat rows ! (b * N + n) = rows ! b ! n"
proof -
  have l: "length (concat rows) = length rows * N" using assms(1) by (rule concat_rows_length)
  have "take N (drop (b * N) (concat rows)) = map (\<lambda>d. concat rows ! (b * N + d)) [0..<N]"
    using l assms(2) by (rule take_drop_chunk)
  then have "rows ! b = map (\<lambda>d. concat rows ! (b * N + d)) [0..<N]"
    using concat_rows_chunk[OF assms(1,2)] by simp
  then have "rows ! b ! n = map (\<lambda>d. concat rows ! (b * N + d)) [0..<N] ! n" by simp
  then show ?thesis using assms(3) by simp
qed

section \<open>Writing patches by index\<close>

lemma chunk_in_range:
  fixes k k' d D :: nat
  assumes "d < D"
  shows "(k * D \<le> k' * D + d \<and> k' * D + d < k * D + D) \<longleftrightarrow> k' = k"
proof
  assume a: "k * D \<le> k' * D + d \<and> k' * D + d < k * D + D"
  show "k' = k"
  proof (rule ccontr)
    assume "k' \<noteq> k"
    then consider "k' < k" | "k < k'" by linarith
    then show False
    proof cases
      case 1
      then have "Suc k' * D \<le> k * D" by (intro mult_le_mono1) simp
      then show False using a assms by simp
    next
      case 2
      then have "Suc k * D \<le> k' * D" by (intro mult_le_mono1) simp
      then show False using a by simp
    qed
  qed
next
  assume "k' = k"
  then show "k * D \<le> k' * D + d \<and> k' * D + d < k * D + D" using assms by simp
qed

lemma grid_inj:
  fixes b b' n n' N :: nat
  assumes "n < N" and "n' < N"
  shows "b' * N + n' = b * N + n \<longleftrightarrow> b' = b \<and> n' = n"
proof
  assume e: "b' * N + n' = b * N + n"
  have "(b' * N + n') div N = b'" "(b * N + n) div N = b" using assms by simp_all
  then have "b' = b" using e by simp
  then show "b' = b \<and> n' = n" using e by simp
qed simp

lemma set_patch_shape: "shape (set_patch t b i v) = shape t"
  by (simp add: set_patch_def Let_def)

lemma set_patch_wf: "wf_tensor t \<Longrightarrow> wf_tensor (set_patch t b i v)"
  by (simp add: set_patch_def Let_def wf_tensor_def)

lemma patch_at_set_patch:
  assumes sh: "shape t = [B, N, D]" and wf: "wf_tensor t"
    and i: "i < N" and b': "b' < B" and n': "n' < N" and v: "length v = D"
  shows "patch_at (set_patch t b i v) b' n'
         = (if b' = b \<and> n' = i then v else patch_at t b' n')"
proof -
  have len: "length (data t) = B * N * D" using wf sh by (simp add: wf_tensor_def mult.assoc)
  let ?k = "b * N + i" and ?k' = "b' * N + n'"
  have k': "?k' < B * N" using b' n' by (rule grid_bound)
  have el: "data (set_patch t b i v) ! (?k' * D + d)
          = (if ?k' = ?k then v ! d else data t ! (?k' * D + d))" if d: "d < D" for d
  proof -
    have lt: "?k' * D + d < length (data t)" using k' d len by (simp add: chunk_bound)
    have "data (set_patch t b i v) ! (?k' * D + d)
        = (if ?k * D \<le> ?k' * D + d \<and> ?k' * D + d < ?k * D + D
           then v ! (?k' * D + d - ?k * D) else data t ! (?k' * D + d))"
      using lt by (simp add: set_patch_def Let_def sh)
    then show ?thesis by (simp add: chunk_in_range[OF d])
  qed
  have "patch_at (set_patch t b i v) b' n'
      = map (\<lambda>d. data (set_patch t b i v) ! (?k' * D + d)) [0..<D]"
    by (simp add: patch_at_def set_patch_shape sh)
  also have "\<dots> = map (\<lambda>d. if ?k' = ?k then v ! d else data t ! (?k' * D + d)) [0..<D]"
    by (rule map_cong[OF refl]) (simp add: el)
  also have "\<dots> = (if ?k' = ?k then map (\<lambda>d. v ! d) [0..<D] else patch_at t b' n')"
    by (simp add: patch_at_def sh)
  also have "map (\<lambda>d. v ! d) [0..<D] = v" using v by (metis map_nth)
  finally show ?thesis using grid_inj[OF i n', of b' b] by simp
qed

lemma index_put_Cons:
  "index_put t b (i # ids) (index_get p b (i # ids))
   = index_put (set_patch t b i (patch_at p b i)) b ids (index_get p b ids)"
  by (simp add: index_put_def index_get_def)

lemma index_put_props:
  assumes sp: "shape p = [B, N, D]"
  shows "shape t = [B, N, D] \<Longrightarrow> wf_tensor t \<Longrightarrow> \<forall>i\<in>set ids. i < N \<Longrightarrow>
     shape (index_put t b ids (index_get p b ids)) = [B, N, D]
     \<and> wf_tensor (index_put t b ids (index_get p b ids))
     \<and> (\<forall>b'<B. \<forall>n'<N. patch_at (index_put t b ids (index_get p b ids)) b' n'
           = (if b' = b \<and> n' \<in> set ids then patch_at p b n' else patch_at t b' n'))"
proof (induction ids arbitrary: t)
  case Nil
  then show ?case by (simp add: index_put_def index_get_def)
next
  case (Cons i ids)
  let ?t' = "set_patch t b i (patch_at p b i)"
  have st': "shape ?t' = [B, N, D]" using Cons.prems(1) by (simp add: set_patch_shape)
  have wt': "wf_tensor ?t'" using Cons.prems(2) by (rule set_patch_wf)
  have ids: "\<forall>i\<in>set ids. i < N" and i: "i < N" using Cons.prems(3) by simp_all
  note IH = Cons.IH[OF st' wt' ids]
  have pa: "patch_at ?t' b' n' = (if b' = b \<and> n' = i then patch_at p b i else patch_at t b' n')"
    if "b' < B" "n' < N" for b' n'
    using patch_at_set_patch[OF Cons.prems(1,2) i that] by (simp add: patch_at_length[OF sp])
  show ?case
    unfolding index_put_Cons using IH pa by auto
qed

lemma fold_index_put_props:
  assumes sp: "shape p = [B, N, D]"
  shows "shape t = [B, N, D] \<Longrightarrow> wf_tensor t \<Longrightarrow> \<forall>b\<in>set bs. \<forall>i\<in>set (keep b). i < N \<Longrightarrow>
     shape (fold (\<lambda>b m. index_put m b (keep b) (index_get p b (keep b))) bs t) = [B, N, D]
     \<and> wf_tensor (fold (\<lambda>b m. index_put m b (keep b) (index_get p b (keep b))) bs t)
     \<and> (\<forall>b'<B. \<forall>n'<N.
          patch_at (fold (\<lambda>b m. index_put m b (keep b) (index_get p b (keep b))) bs t) b' n'
           = (if b' \<in> set bs \<and> n' \<in> set (keep b') then patch_at p b' n' else patch_at t b' n'))"
proof (induction bs arbitrary: t)
  case Nil
  then show ?case by simp
next
  case (Cons b bs)
  let ?t' = "index_put t b (keep b) (index_get p b (keep b))"
  have kb: "\<forall>i\<in>set (keep b). i < N" and ks: "\<forall>b\<in>set bs. \<forall>i\<in>set (keep b). i < N"
    using Cons.prems(3) by simp_all
  note step = index_put_props[OF sp Cons.prems(1,2) kb, of b]
  from step have st': "shape ?t' = [B, N, D]" and wt': "wf_tensor ?t'" by simp_all
  note IH = Cons.IH[OF st' wt' ks]
  show ?case using IH step by auto
qed

lemma patch_at_zeros:
  assumes "shape p = [B, N, D]" and "wf_tensor p" and "b < B" and "n < N"
  shows "patch_at (zeros_like p) b n = replicate D (Fin 0)"
proof -
  have len: "length (data p) = B * N * D" using assms by (simp add: wf_tensor_def mult.assoc)
  have "b * N + n < B * N" using assms(3,4) by (rule grid_bound)
  then have "\<forall>d<D. (b * N + n) * D + d < B * N * D" by (simp add: chunk_bound)
  then have "map (\<lambda>d. replicate (B * N * D) (Fin 0) ! ((b * N + n) * D + d)) [0..<D]
        = map (\<lambda>d. Fin 0) [0..<D]"
    by (intro map_cong[OF refl]) simp
  then show ?thesis
    by (simp add: patch_at_def zeros_like_def assms(1) len map_replicate_const)
qed

section \<open>What the masking policy returns\<close>

lemma gather1_replicate:
  "length index = B \<Longrightarrow>
   gather1 (replicate B row) index = map (\<lambda>ids. map (\<lambda>j. row ! j) ids) index"
  by (simp add: gather1_def zip_replicate1 comp_def)

lemma mask0_nth:
  assumes "j < N"
  shows "set_slice_to k (Fin 0) (replicate N (Fin 1)) ! j
         = (if j < slice_len k N then Fin 0 else Fin 1)"
  using assms slice_len_le[of k N] by (simp add: set_slice_to_def nth_append)

lemma rows2_noise:
  assumes "length xs = B * N"
  shows "length (rows2 (Tensor [B, N] xs)) = B"
    and "\<forall>b<B. length (rows2 (Tensor [B, N] xs) ! b) = N"
proof -
  show "length (rows2 (Tensor [B, N] xs)) = B" by (simp add: rows2_def)
  show "\<forall>b<B. length (rows2 (Tensor [B, N] xs) ! b) = N"
  proof (intro allI impI)
    fix b assume b: "b < B"
    have "take N (drop (b * N) xs) = map (\<lambda>d. xs ! (b * N + d)) [0..<N]"
      using assms b by (rule take_drop_chunk)
    then show "length (rows2 (Tensor [B, N] xs) ! b) = N"
      using b by (simp add: rows2_def)
  qed
qed

text \<open>
  What \<open>random_masking\<close> returns, position by position: with \<open>ids\<close> the shuffled indices
  and \<open>K\<close> the length of the slice \<open>[:len_keep]\<close>, position \<open>n\<close> of image \<open>b\<close> is visible
  exactly when \<open>n\<close> is among the first \<open>K\<close> shuffled indices of \<open>b\<close>.
\<close>

lemma random_masking_result:
  assumes sp: "shape patches = [B, N, D]" and wp: "wf_tensor patches"
    and K: "K = slice_len (py_int (real N * (1 - mask_ratio))) N"
  shows "\<exists>masked msk g' ids.
       random_masking draw patches mask_ratio g = Inr ((masked, msk), g')
     \<and> (\<forall>b<B. length (ids b) = N \<and> set (ids b) = {0..<N})
     \<and> shape masked = [B, N, D] \<and> wf_tensor masked
     \<and> shape msk = [B, N] \<and> wf_tensor msk
     \<and> (\<forall>b<B. \<forall>n<N. mask_at msk b n = (if n \<in> set (take K (ids b)) then Fin 0 else Fin 1))
     \<and> (\<forall>b<B. \<forall>n<N. patch_at masked b n
           = (if n \<in> set (take K (ids b)) then patch_at patches b n else replicate D (Fin 0)))"
proof -
  define len_keep where "len_keep = py_int (real N * (1 - mask_ratio))"
  define xs where "xs = fst (draws draw (B * N) g)"
  define g' where "g' = snd (draws draw (B * N) g)"
  define ids_shuffle where "ids_shuffle = map argsort (rows2 (Tensor [B, N] xs))"
  define ids_restore where "ids_restore = map argsort ids_shuffle"
  define ids_keep where "ids_keep = map (py_slice_to len_keep) ids_shuffle"
  define mask0 where "mask0 = set_slice_to len_keep (Fin 0) (replicate N (Fin 1))"
  define mrows where "mrows = gather1 (replicate B mask0) ids_restore"
  define masked where "masked = fold (\<lambda>b m. index_put m b (ids_keep ! b)
                                       (index_get patches b (ids_keep ! b)))
                             [0..<B] (zeros_like patches)"
  define msk where "msk = Tensor [B, N] (concat mrows)"
  have res: "random_masking draw patches mask_ratio g = Inr ((masked, msk), g')"
    unfolding random_masking_def sp
    by (simp add: Let_def rand_def split_beta len_keep_def xs_def g'_def ids_shuffle_def
        ids_restore_def ids_keep_def mask0_def mrows_def masked_def msk_def)
  have lxs: "length xs = B * N" by (simp add: xs_def draws_length)
  have lsh: "length ids_shuffle = B"
    by (simp add: ids_shuffle_def rows2_noise(1)[OF lxs])
  have ids: "length (ids_shuffle ! b) = N \<and> set (ids_shuffle ! b) = {0..<N}" if b: "b < B" for b
  proof -
    have "ids_shuffle ! b = argsort (rows2 (Tensor [B, N] xs) ! b)"
      using b by (simp add: ids_shuffle_def rows2_noise(1)[OF lxs])
    moreover have "length (rows2 (Tensor [B, N] xs) ! b) = N"
      using rows2_noise(2)[OF lxs] b by simp
    ultimately show ?thesis by (simp add: argsort_length argsort_set)
  qed
  have keep: "ids_keep ! b = take K (ids_shuffle ! b)" if b: "b < B" for b
    using b lsh ids[OF b] by (simp add: ids_keep_def py_slice_to_def K len_keep_def)
  have KN: "K \<le> N" by (simp add: K slice_len_le)
  \<comment> \<open>the mask\<close>
  have lres: "length ids_restore = B" by (simp add: ids_restore_def lsh)
  have mrows_eq: "mrows = map (\<lambda>q. map (\<lambda>j. mask0 ! j) q) ids_restore"
    unfolding mrows_def by (rule gather1_replicate[OF lres])
  have lrows: "length mrows = B" by (simp add: mrows_eq lres)
  have rowlen: "\<forall>r\<in>set mrows. length r = N"
  proof
    fix r assume "r \<in> set mrows"
    then obtain b where b: "b < B" and r: "r = mrows ! b"
      using lrows by (auto simp: in_set_conv_nth)
    have "mrows ! b = map (\<lambda>j. mask0 ! j) (argsort (ids_shuffle ! b))"
      using b lsh by (simp add: mrows_eq ids_restore_def)
    then show "length r = N" using r ids[OF b] by (simp add: argsort_length)
  qed
  have smsk: "shape msk = [B, N]" by (simp add: msk_def)
  have wmsk: "wf_tensor msk"
    using concat_rows_length[OF rowlen] by (simp add: msk_def wf_tensor_def lrows)
  have mk: "mask_at msk b n = (if n \<in> set (take K (ids_shuffle ! b)) then Fin 0 else Fin 1)"
    if b: "b < B" and n: "n < N" for b n
  proof -
    have l: "length (ids_shuffle ! b) = N" and s: "set (ids_shuffle ! b) = {0..<N}"
      using ids[OF b] by simp_all
    have "mask_at msk b n = concat mrows ! (b * N + n)" by (simp add: mask_at_def msk_def)
    also have "\<dots> = mrows ! b ! n"
      using rowlen b n lrows by (intro concat_rows_nth) simp_all
    also have "mrows ! b = map (\<lambda>j. mask0 ! j) (argsort (ids_shuffle ! b))"
      using b lsh by (simp add: mrows_eq ids_restore_def)
    also have "\<dots> ! n = mask0 ! (argsort (ids_shuffle ! b) ! n)"
      using n l by (simp add: argsort_length)
    also have "\<dots> = (if argsort (ids_shuffle ! b) ! n < K then Fin 0 else Fin 1)"
      unfolding mask0_def K len_keep_def
      by (rule mask0_nth) (rule argsort_inverse(1)[OF l s n])
    finally show ?thesis by (simp add: argsort_rank[OF l s n KN])
  qed
  \<comment> \<open>the masked sequence\<close>
  have sz: "shape (zeros_like patches) = [B, N, D]" by (simp add: zeros_like_def sp)
  have wz: "wf_tensor (zeros_like patches)"
    using wp by (simp add: zeros_like_def wf_tensor_def)
  have kb: "\<forall>b\<in>set [0..<B]. \<forall>i\<in>set (ids_keep ! b). i < N"
  proof (intro ballI)
    fix b i assume "b \<in> set [0..<B]" and i: "i \<in> set (ids_keep ! b)"
    then have b: "b < B" by simp
    from i have "i \<in> set (ids_shuffle ! b)" using keep[OF b] by (auto dest: in_set_takeD)
    then show "i < N" using ids[OF b] by simp
  qed
  note fp = fold_index_put_props[OF sp sz wz kb, folded masked_def]
  have pm: "patch_at masked b n
      = (if n \<in> set (take K (ids_shuffle ! b)) then patch_at patches b n else replicate D (Fin 0))"
    if b: "b < B" and n: "n < N" for b n
    using fp b n keep[OF b] patch_at_zeros[OF sp wp b n] by simp
  show ?thesis
    using res ids smsk wmsk mk pm fp
    by (intro exI[of _ masked] exI[of _ msk] exI[of _ g'] exI[of _ "\<lambda>b. ids_shuffle ! b"]) simp
qed

section \<open>Masking policy: cardinality and alignment\<close>

lemma tensor3_eqI:
  assumes sa: "shape a = [B, N, D]" and sb: "shape c = [B, N, D]"
    and wa: "wf_tensor a" and wb: "wf_tensor c"
    and eq: "\<forall>b<B. \<forall>n<N. patch_at a b n = patch_at c b n"
  shows "a = c"
proof -
  have la: "length (data a) = B * N * D" and lb: "length (data c) = B * N * D"
    using wa wb sa sb by (simp_all add: wf_tensor_def mult.assoc)
  have "data a = data c"
  proof (rule nth_equalityI)
    show "length (data a) = length (data c)" using la lb by simp
    fix j assume "j < length (data a)"
    then have j: "j < (B * N) * D" using la by simp
    then have k: "j div D < B * N" and d: "j mod D < D" and jd: "j div D * D + j mod D = j"
      by (rule grid_index)+
    let ?b = "j div D div N" and ?n = "j div D mod N"
    have b: "?b < B" and n: "?n < N" and kd: "?b * N + ?n = j div D"
      using grid_index[OF k] by simp_all
    have "patch_at a ?b ?n ! (j mod D) = patch_at c ?b ?n ! (j mod D)"
      using eq b n by simp
    then show "data a ! j = data c ! j"
      using d by (simp add: patch_at_nth[OF sa] patch_at_nth[OF sb] kd)
  qed
  then show ?thesis using sa sb by (cases a; cases c) simp
qed

lemma tensor2_eqI:
  assumes sa: "shape a = [B, N]" and sb: "shape c = [B, N]"
    and wa: "wf_tensor a" and wb: "wf_tensor c"
    and eq: "\<forall>b<B. \<forall>n<N. mask_at a b n = mask_at c b n"
  shows "a = c"
proof -
  have la: "length (data a) = B * N" and lb: "length (data c) = B * N"
    using wa wb sa sb by (simp_all add: wf_tensor_def)
  have "data a = data c"
  proof (rule nth_equalityI)
    show "length (data a) = length (data c)" using la lb by simp
    fix j assume "j < length (data a)"
    then have j: "j < B * N" using la by simp
    have b: "j div N < B" and n: "j mod N < N" using grid_index[OF j] by simp_all
    have "mask_at a (j div N) (j mod N) = mask_at c (j div N) (j mod N)" using eq b n by simp
    then show "data a ! j = data c ! j"
      by (simp add: mask_at_data[OF sa] mask_at_data[OF sb])
  qed
  then show ?thesis using sa sb by (cases a; cases c) simp
qed

lemma mask_at_replicate:
  "b < B \<Longrightarrow> n < N \<Longrightarrow> mask_at (Tensor [B, N] (replicate (B * N) v)) b n = v"
  by (simp add: mask_at_def grid_bound)






text \<open>
  C3. \<open>random_masking\<close> returns a masked sequence of the shape of its input and a mask
  of zeros and ones in the order of the patches: where the mask is 0 the patch is the
  original one, where it is 1 the patch is the zero vector.
\<close>

theorem random_masking_alignment:
  assumes sp: "shape patches = [B, N, D]" and wp: "wf_tensor patches"
  shows "\<exists>masked msk g'.
       random_masking draw patches mask_ratio g = Inr ((masked, msk), g')
     \<and> shape masked = shape patches \<and> shape msk = [B, N]
     \<and> (\<forall>b<B. \<forall>n<N.
          (mask_at msk b n = Fin 0 \<or> mask_at msk b n = Fin 1)
        \<and> (mask_at msk b n = Fin 0 \<longrightarrow> patch_at masked b n = patch_at patches b n)
        \<and> (mask_at msk b n = Fin 1 \<longrightarrow> patch_at masked b n = replicate D (Fin 0)))"
proof -
  let ?K = "slice_len (py_int (real N * (1 - mask_ratio))) N"
  from random_masking_result[OF sp wp refl, where mask_ratio = mask_ratio and draw = draw and g = g]
  obtain masked msk g' ids where
    res: "random_masking draw patches mask_ratio g = Inr ((masked, msk), g')"
    and sh: "shape masked = [B, N, D]" "shape msk = [B, N]"
    and mk: "\<forall>b<B. \<forall>n<N. mask_at msk b n = (if n \<in> set (take ?K (ids b)) then Fin 0 else Fin 1)"
    and pm: "\<forall>b<B. \<forall>n<N. patch_at masked b n
           = (if n \<in> set (take ?K (ids b)) then patch_at patches b n else replicate D (Fin 0))"
    by blast
  have "(mask_at msk b n = Fin 0 \<or> mask_at msk b n = Fin 1)
        \<and> (mask_at msk b n = Fin 0 \<longrightarrow> patch_at masked b n = patch_at patches b n)
        \<and> (mask_at msk b n = Fin 1 \<longrightarrow> patch_at masked b n = replicate D (Fin 0))"
    if "b < B" "n < N" for b n
    using mk pm that by simp
  then show ?thesis using res sh sp by auto
qed

theorem random_masking_alignment_witness:
  "\<exists>masked msk g'.
       random_masking (\<lambda>g::nat. (real (7 * g mod 5), g + 1))
         (Tensor [2, 4, 1] (map (\<lambda>i. Fin (real i)) [1..<9])) (1 / 2) 3 = Inr ((masked, msk), g')
     \<and> shape masked = [2, 4, 1] \<and> shape msk = [2, 4]
     \<and> (\<forall>b<2. \<forall>n<4.
          (mask_at msk b n = Fin 0 \<or> mask_at msk b n = Fin 1)
        \<and> (mask_at msk b n = Fin 0 \<longrightarrow> patch_at masked b n
               = patch_at (Tensor [2, 4, 1] (map (\<lambda>i. Fin (real i)) [1..<9])) b n)
        \<and> (mask_at msk b n = Fin 1 \<longrightarrow> patch_at masked b n = replicate 1 (Fin 0)))"
  using random_masking_alignment[of "Tensor [2, 4, 1] (map (\<lambda>i. Fin (real i)) [1..<9])"
      2 4 1 "\<lambda>g::nat. (real (7 * g mod 5), g + 1)" "1 / 2" 3]
  by (simp add: wf_tensor_def)

section \<open>Masking policy: degenerate ratios and the random source\<close>

text \<open>
  C10. \<open>random_masking\<close> raises nothing at the degenerate ratios. When
  \<open>int(N * (1 - mask_ratio))\<close> is 0 it returns the all-zero sequence with a mask of ones;
  when it is \<open>N\<close> it returns its input with a mask of zeros, and \<open>compute_loss\<close> with that
  mask divides zero by zero: its value is NaN.
\<close>

theorem random_masking_degenerate:
  assumes sp: "shape patches = [B, N, D]" and wp: "wf_tensor patches"
  shows "(py_int (real N * (1 - mask_ratio)) = 0 \<longrightarrow>
            (\<exists>g'. random_masking draw patches mask_ratio g
                   = Inr ((zeros_like patches, Tensor [B, N] (replicate (B * N) (Fin 1))), g')))
       \<and> (py_int (real N * (1 - mask_ratio)) = int N \<longrightarrow>
            (\<exists>g'. random_masking draw patches mask_ratio g
                   = Inr ((patches, Tensor [B, N] (replicate (B * N) (Fin 0))), g'))
          \<and> (shape reconstructed = [B, N, D] \<and> wf_tensor reconstructed \<longrightarrow>
               compute_loss patches reconstructed (Tensor [B, N] (replicate (B * N) (Fin 0)))
               = Inr NaN))"
proof -
  let ?K = "slice_len (py_int (real N * (1 - mask_ratio))) N"
  from random_masking_result[OF sp wp refl, where mask_ratio = mask_ratio and draw = draw and g = g]
  obtain masked msk g' ids where
    res: "random_masking draw patches mask_ratio g = Inr ((masked, msk), g')"
    and ids: "\<forall>b<B. length (ids b) = N \<and> set (ids b) = {0..<N}"
    and sk: "shape masked = [B, N, D]" and wk: "wf_tensor masked"
    and sm: "shape msk = [B, N]" and wm: "wf_tensor msk"
    and mk: "\<forall>b<B. \<forall>n<N. mask_at msk b n = (if n \<in> set (take ?K (ids b)) then Fin 0 else Fin 1)"
    and pm: "\<forall>b<B. \<forall>n<N. patch_at masked b n
           = (if n \<in> set (take ?K (ids b)) then patch_at patches b n else replicate D (Fin 0))"
    by blast
  have sz: "shape (zeros_like patches) = [B, N, D]" by (simp add: zeros_like_def sp)
  have wz: "wf_tensor (zeros_like patches)" using wp by (simp add: zeros_like_def wf_tensor_def)
  have wc: "wf_tensor (Tensor [B, N] (replicate (B * N) v))" for v :: fl
    by (simp add: wf_tensor_def)
  have none: "\<exists>g'. random_masking draw patches mask_ratio g
                   = Inr ((zeros_like patches, Tensor [B, N] (replicate (B * N) (Fin 1))), g')"
    if k: "py_int (real N * (1 - mask_ratio)) = 0"
  proof -
    have K: "?K = 0" using k by (simp add: slice_len_def)
    have "masked = zeros_like patches"
      using pm by (intro tensor3_eqI[OF sk sz wk wz]) (simp add: K patch_at_zeros[OF sp wp])
    moreover have "msk = Tensor [B, N] (replicate (B * N) (Fin 1))"
      using mk by (intro tensor2_eqI[OF sm _ wm wc]) (simp_all add: K mask_at_replicate)
    ultimately show ?thesis using res by simp
  qed
  have all: "\<exists>g'. random_masking draw patches mask_ratio g
                   = Inr ((patches, Tensor [B, N] (replicate (B * N) (Fin 0))), g')"
    if k: "py_int (real N * (1 - mask_ratio)) = int N"
  proof -
    have K: "?K = N" using k by (simp add: slice_len_def)
    have "masked = patches"
      using pm ids by (intro tensor3_eqI[OF sk sp wk wp]) (simp add: K)
    moreover have "msk = Tensor [B, N] (replicate (B * N) (Fin 0))"
      using mk ids by (intro tensor2_eqI[OF sm _ wm wc]) (simp_all add: K mask_at_replicate)
    ultimately show ?thesis using res by simp
  qed
  have nan: "compute_loss patches reconstructed (Tensor [B, N] (replicate (B * N) (Fin 0)))
               = Inr NaN"
    if "shape reconstructed = [B, N, D] \<and> wf_tensor reconstructed"
    using that by (intro compute_loss_all_zero[OF sp _ _ wp _ wc]) simp_all
  show ?thesis using none all nan by blast
qed

theorem random_masking_degenerate_witness:
  "(\<exists>g'. random_masking (\<lambda>g::nat. (real (7 * g mod 5), g + 1))
            (Tensor [1, 2, 1] [Fin 1, Fin 2]) 1 3
          = Inr ((Tensor [1, 2, 1] [Fin 0, Fin 0], Tensor [1, 2] [Fin 1, Fin 1]), g'))
   \<and> (\<exists>g'. random_masking (\<lambda>g::nat. (real (7 * g mod 5), g + 1))
            (Tensor [1, 2, 1] [Fin 1, Fin 2]) 0 3
          = Inr ((Tensor [1, 2, 1] [Fin 1, Fin 2], Tensor [1, 2] [Fin 0, Fin 0]), g'))
   \<and> compute_loss (Tensor [1, 2, 1] [Fin 1, Fin 2]) (Tensor [1, 2, 1] [Fin 5, Fin 6])
        (Tensor [1, 2] [Fin 0, Fin 0]) = Inr NaN"
proof -
  have z: "py_int (real 2 * (1 - 1)) = 0" and a: "py_int (real 2 * (1 - 0)) = int 2"
    by (simp_all add: py_int_def)
  note w1 = random_masking_degenerate[of "Tensor [1, 2, 1] [Fin 1, Fin 2]" 1 2 1 1
      "\<lambda>g::nat. (real (7 * g mod 5), g + 1)" 3 "Tensor [1, 2, 1] [Fin 5, Fin 6]"]
  note w0 = random_masking_degenerate[of "Tensor [1, 2, 1] [Fin 1, Fin 2]" 1 2 1 0
      "\<lambda>g::nat. (real (7 * g mod 5), g + 1)" 3 "Tensor [1, 2, 1] [Fin 5, Fin 6]"]
  have wf: "wf_tensor (Tensor [1, 2, 1] [Fin 1, Fin 2])" "wf_tensor (Tensor [1, 2, 1] [Fin 5, Fin 6])"
    by (simp_all add: wf_tensor_def)
  have r2: "replicate 2 v = [v, v]" for v :: fl by (simp add: numeral_2_eq_2)
  show ?thesis
    using w1 w0 z a wf by (simp add: zeros_like_def r2)
qed




end
